theory Spec2Isabelle
  imports Main "HOL-Library.Word"
begin

unbundle bit_operations_syntax

section \<open>Types and constants of microputer.h\<close>

text \<open>
  \<^verbatim>\<open>byte_t\<close> is \<^verbatim>\<open>unsigned char\<close>, the program counter and the instruction
  register are \<^verbatim>\<open>uint16_t\<close>. The return codes are the macros
  \<^verbatim>\<open>SUCCESS\<close> (0) and \<^verbatim>\<open>ERROR\<close> (1).
\<close>

type_synonym byte_t = "8 word"
type_synonym uint16_t = "16 word"

definition WORD_SIZE :: nat where "WORD_SIZE = 2"
definition NUM_INSTRUCTIONS :: nat where "NUM_INSTRUCTIONS = 8"
definition NUM_REGISTERS :: nat where "NUM_REGISTERS = 16"
definition MEM_BYTE_SIZE :: nat where "MEM_BYTE_SIZE = 32"
definition MAX_ASM_LINE_LEN :: nat where "MAX_ASM_LINE_LEN = 15"

datatype retcode = SUCCESS | ERROR

text \<open>
  A function pointer is the name of the function it points to; the null pointer is what
  \<^verbatim>\<open>memset\<close> leaves in a fresh machine.
\<close>

datatype handler_ptr =
  null_handler | ldi_handler_ptr | bit_op_handler_ptr | prt_handler_ptr
  | rdd_handler_ptr | blt_handler_ptr

datatype disassembler_ptr =
  null_disassembler | ldi_disassembler_ptr | bit_op_disassembler_ptr
  | prt_disassembler_ptr | rdd_disassembler_ptr | blt_disassembler_ptr

record instruction_t =
  handler :: handler_ptr
  disassembler :: disassembler_ptr

record microputer_t =
  instr_set :: "instruction_t list"
  reg :: "byte_t list"
  mem :: "byte_t list"
  loaded_mem_slots :: byte_t
  pc :: uint16_t
  ir :: uint16_t

text \<open>
  The console: the values that the successive calls \<^verbatim>\<open>scanf("%d", &input)\<close> store in
  their \<^verbatim>\<open>unsigned int\<close> variable, in order and up to the first input that is no
  number, and the characters printed so far. What \<^verbatim>\<open>scanf\<close> stores for the digits it
  reads is the matter of the C library, not of this program.
\<close>

record console =
  stdin :: "32 word list"
  stdout :: string

definition machine_ok :: "microputer_t \<Rightarrow> bool" where
  "machine_ok mp \<longleftrightarrow>
     length (instr_set mp) = NUM_INSTRUCTIONS \<and> length (reg mp) = NUM_REGISTERS
     \<and> length (mem mp) = MEM_BYTE_SIZE"

section \<open>Text formatting\<close>

definition newline :: string where "newline = [CHR 0x0A]"
definition tab :: string where "tab = [CHR 0x09]"

definition digit_char :: "nat \<Rightarrow> char" where
  "digit_char d = ''0123456789'' ! d"

text \<open>The decimal conversions \<^verbatim>\<open>%hu\<close> and \<^verbatim>\<open>%d\<close> of a non-negative value.\<close>

fun dec :: "nat \<Rightarrow> string" where
  "dec n = (if n < 10 then [digit_char n] else dec (n div 10) @ [digit_char (n mod 10)])"

declare dec.simps [simp del]

text \<open>
  \<^verbatim>\<open>snprintf(buf, size, ...)\<close> stores at most \<^verbatim>\<open>size - 1\<close> characters of the
  formatted text, then the terminator.
\<close>

definition snprintf :: "nat \<Rightarrow> string \<Rightarrow> string" where
  "snprintf n text = take (n - 1) text"

section \<open>Instruction argument extractors\<close>

definition ldi_extract_instr_args :: "uint16_t \<Rightarrow> byte_t list" where
  "ldi_extract_instr_args instr =
     [ucast (drop_bit 9 (instr AND push_bit 9 0xF)),
      ucast (drop_bit 1 (instr AND push_bit 1 0xFF))]"

definition bit_op_extract_instr_args :: "uint16_t \<Rightarrow> byte_t list" where
  "bit_op_extract_instr_args instr =
     [ucast (drop_bit 13 (instr AND push_bit 13 7)),
      ucast (drop_bit 9 (instr AND push_bit 9 0xF)),
      ucast (drop_bit 5 (instr AND push_bit 5 0xF)),
      ucast (drop_bit 1 (instr AND push_bit 1 0xF))]"

definition prt_extract_instr_args :: "uint16_t \<Rightarrow> byte_t list" where
  "prt_extract_instr_args instr = [ucast (drop_bit 9 (instr AND push_bit 9 0xF))]"

definition rdd_extract_instr_args :: "uint16_t \<Rightarrow> byte_t list" where
  "rdd_extract_instr_args instr = [ucast (drop_bit 9 (instr AND push_bit 9 0xF))]"

definition blt_extract_instr_args :: "uint16_t \<Rightarrow> byte_t list" where
  "blt_extract_instr_args instr =
     [ucast (drop_bit 9 (instr AND push_bit 9 0xF)),
      ucast (drop_bit 5 (instr AND push_bit 5 0xF)),
      ucast (instr AND 31)]"

section \<open>Instruction disassemblers\<close>

text \<open>
  A disassembler gets the instruction word and the line buffer it writes to, and the
  model returns the buffer's new contents. Only \<^verbatim>\<open>bit_op_disassembler\<close> can
  return without writing (its \<^verbatim>\<open>default\<close> case).
\<close>

definition ldi_disassembler :: "uint16_t \<Rightarrow> string \<Rightarrow> string" where
  "ldi_disassembler instr out_line =
     (let args = ldi_extract_instr_args instr
      in snprintf MAX_ASM_LINE_LEN
           (''LDI R'' @ dec (unat (args ! 0)) @ '' '' @ dec (unat (args ! 1))))"

definition bit_op_text :: "string \<Rightarrow> byte_t list \<Rightarrow> string" where
  "bit_op_text op_name args =
     op_name @ '' R'' @ dec (unat (args ! 1)) @ '' R'' @ dec (unat (args ! 2))
       @ '' R'' @ dec (unat (args ! 3))"

definition bit_op_disassembler :: "uint16_t \<Rightarrow> string \<Rightarrow> string" where
  "bit_op_disassembler instr out_line =
     (let args = bit_op_extract_instr_args instr
      in if args ! 0 = 1 then snprintf MAX_ASM_LINE_LEN (bit_op_text ''ADD'' args)
         else if args ! 0 = 2 then snprintf MAX_ASM_LINE_LEN (bit_op_text ''AND'' args)
         else if args ! 0 = 3 then snprintf MAX_ASM_LINE_LEN (bit_op_text ''OR'' args)
         else if args ! 0 = 4 then snprintf MAX_ASM_LINE_LEN (bit_op_text ''XOR'' args)
         else out_line)"

definition prt_disassembler :: "uint16_t \<Rightarrow> string \<Rightarrow> string" where
  "prt_disassembler instr out_line =
     (let args = prt_extract_instr_args instr
      in snprintf MAX_ASM_LINE_LEN (''PRT R'' @ dec (unat (args ! 0))))"

definition rdd_disassembler :: "uint16_t \<Rightarrow> string \<Rightarrow> string" where
  "rdd_disassembler instr out_line =
     (let args = rdd_extract_instr_args instr
      in snprintf MAX_ASM_LINE_LEN (''RDD R'' @ dec (unat (args ! 0))))"

definition blt_disassembler :: "uint16_t \<Rightarrow> string \<Rightarrow> string" where
  "blt_disassembler instr out_line =
     (let args = blt_extract_instr_args instr
      in snprintf MAX_ASM_LINE_LEN
           (''BLT R'' @ dec (unat (args ! 0)) @ '' R'' @ dec (unat (args ! 1))
              @ '' '' @ dec (unat (args ! 2))))"

section \<open>Instruction handlers\<close>

text \<open>
  A handler gets the machine and the console and returns its code with both updated.
  The operands of \<^verbatim>\<open>+\<close>, \<^verbatim>\<open><\<close> and \<^verbatim>\<open>%\<close> are promoted to \<^verbatim>\<open>int\<close>, so the
  model computes on \<open>uint\<close> and converts the result back on the store.
\<close>

definition ldi_handler :: "microputer_t \<Rightarrow> console \<Rightarrow> retcode \<times> microputer_t \<times> console" where
  "ldi_handler mp io =
     (let args = ldi_extract_instr_args (ir mp);
          imm = args ! 1
      in (SUCCESS, mp\<lparr>reg := (reg mp)[unat (args ! 0) := imm]\<rparr>, io))"

definition bit_op_handler :: "microputer_t \<Rightarrow> console \<Rightarrow> retcode \<times> microputer_t \<times> console" where
  "bit_op_handler mp io =
     (let args = bit_op_extract_instr_args (ir mp);
          op_code = args ! 0;
          ri = reg mp ! unat (args ! 1);
          rj = reg mp ! unat (args ! 2);
          rk = unat (args ! 3)
      in if op_code = 1 then (SUCCESS, mp\<lparr>reg := (reg mp)[rk := word_of_int (uint ri + uint rj)]\<rparr>, io)
         else if op_code = 2 then (SUCCESS, mp\<lparr>reg := (reg mp)[rk := ri AND rj]\<rparr>, io)
         else if op_code = 3 then (SUCCESS, mp\<lparr>reg := (reg mp)[rk := ri OR rj]\<rparr>, io)
         else if op_code = 4 then (SUCCESS, mp\<lparr>reg := (reg mp)[rk := ri XOR rj]\<rparr>, io)
         else (ERROR, mp, io))"

definition prt_handler :: "microputer_t \<Rightarrow> console \<Rightarrow> retcode \<times> microputer_t \<times> console" where
  "prt_handler mp io =
     (let args = prt_extract_instr_args (ir mp)
      in (SUCCESS, mp,
          io\<lparr>stdout := stdout io @ ''R'' @ dec (unat (args ! 0)) @ '' = ''
                @ dec (unat (reg mp ! unat (args ! 0))) @ newline\<rparr>))"

text \<open>
  \<^verbatim>\<open>scanf("%d", &input)\<close> with \<^verbatim>\<open>input\<close> set to 0 before: when nothing can be
  read the variable keeps 0. The variable is an \<^verbatim>\<open>unsigned int\<close> of which the low
  8 bits are stored in the register.
\<close>

definition rdd_handler :: "microputer_t \<Rightarrow> console \<Rightarrow> retcode \<times> microputer_t \<times> console" where
  "rdd_handler mp io =
     (let args = rdd_extract_instr_args (ir mp);
          io1 = io\<lparr>stdout := stdout io @ ''Enter a value for R'' @ dec (unat (args ! 0)) @ '': ''\<rparr>;
          input = (case stdin io1 of [] \<Rightarrow> (0 :: 32 word) | x # rest \<Rightarrow> x);
          io2 = io1\<lparr>stdin := (case stdin io1 of [] \<Rightarrow> [] | x # rest \<Rightarrow> rest)\<rparr>
      in (SUCCESS, mp\<lparr>reg := (reg mp)[unat (args ! 0) := ucast (input AND 0x00FF)]\<rparr>, io2))"

definition blt_handler :: "microputer_t \<Rightarrow> console \<Rightarrow> retcode \<times> microputer_t \<times> console" where
  "blt_handler mp io =
     (let args = blt_extract_instr_args (ir mp);
          ri = reg mp ! unat (args ! 0);
          rj = reg mp ! unat (args ! 1);
          addr = args ! 2
      in if uint ri < uint rj
         then (if uint addr mod 2 \<noteq> 0
               then (ERROR, mp,
                     io\<lparr>stdout := stdout io @ '' # [ERROR: Address must be on word boundary!] #''\<rparr>)
               else (SUCCESS, mp\<lparr>pc := ucast addr\<rparr>, io))
         else (SUCCESS, mp, io))"

section \<open>Calls through the instruction table\<close>

text \<open>A call through a null pointer has no defined result: \<open>None\<close>.\<close>

fun call_handler ::
  "handler_ptr \<Rightarrow> microputer_t \<Rightarrow> console \<Rightarrow> (retcode \<times> microputer_t \<times> console) option" where
  "call_handler null_handler mp io = None"
| "call_handler ldi_handler_ptr mp io = Some (ldi_handler mp io)"
| "call_handler bit_op_handler_ptr mp io = Some (bit_op_handler mp io)"
| "call_handler prt_handler_ptr mp io = Some (prt_handler mp io)"
| "call_handler rdd_handler_ptr mp io = Some (rdd_handler mp io)"
| "call_handler blt_handler_ptr mp io = Some (blt_handler mp io)"

fun call_disassembler :: "disassembler_ptr \<Rightarrow> uint16_t \<Rightarrow> string \<Rightarrow> string option" where
  "call_disassembler null_disassembler instr out_line = None"
| "call_disassembler ldi_disassembler_ptr instr out_line = Some (ldi_disassembler instr out_line)"
| "call_disassembler bit_op_disassembler_ptr instr out_line = Some (bit_op_disassembler instr out_line)"
| "call_disassembler prt_disassembler_ptr instr out_line = Some (prt_disassembler instr out_line)"
| "call_disassembler rdd_disassembler_ptr instr out_line = Some (rdd_disassembler instr out_line)"
| "call_disassembler blt_disassembler_ptr instr out_line = Some (blt_disassembler instr out_line)"

section \<open>Creation of the machine and of its instruction set\<close>

text \<open>The machine \<^verbatim>\<open>create_microputer\<close> returns when the allocation succeeds.\<close>

definition create_microputer :: microputer_t where
  "create_microputer =
     \<lparr>instr_set = replicate NUM_INSTRUCTIONS \<lparr>handler = null_handler, disassembler = null_disassembler\<rparr>,
      reg = replicate NUM_REGISTERS 0,
      mem = replicate MEM_BYTE_SIZE 0,
      loaded_mem_slots = 0, pc = 0, ir = 0\<rparr>"

definition create_instruction_set :: "microputer_t \<Rightarrow> microputer_t" where
  "create_instruction_set mp =
     mp\<lparr>instr_set := (instr_set mp)
       [0 := \<lparr>handler = ldi_handler_ptr, disassembler = ldi_disassembler_ptr\<rparr>,
        1 := \<lparr>handler = bit_op_handler_ptr, disassembler = bit_op_disassembler_ptr\<rparr>,
        2 := \<lparr>handler = bit_op_handler_ptr, disassembler = bit_op_disassembler_ptr\<rparr>,
        3 := \<lparr>handler = bit_op_handler_ptr, disassembler = bit_op_disassembler_ptr\<rparr>,
        4 := \<lparr>handler = bit_op_handler_ptr, disassembler = bit_op_disassembler_ptr\<rparr>,
        5 := \<lparr>handler = prt_handler_ptr, disassembler = prt_disassembler_ptr\<rparr>,
        6 := \<lparr>handler = rdd_handler_ptr, disassembler = rdd_disassembler_ptr\<rparr>,
        7 := \<lparr>handler = blt_handler_ptr, disassembler = blt_disassembler_ptr\<rparr>]\<rparr>"

text \<open>The table every run uses: \<^verbatim>\<open>start\<close> builds it before it loads the program.\<close>

definition table_set_up :: "microputer_t \<Rightarrow> bool" where
  "table_set_up mp \<longleftrightarrow> instr_set mp = instr_set (create_instruction_set create_microputer)"

section \<open>The interpreter\<close>

text \<open>
  The opcode as \<^verbatim>\<open>execute_micro_program\<close> computes it from the instruction
  register, and as \<^verbatim>\<open>disassemble_micro_program\<close> computes it from the word it has
  assembled.
\<close>

definition execute_op_code :: "uint16_t \<Rightarrow> byte_t" where
  "execute_op_code w = ucast (drop_bit 13 (w AND push_bit 13 7))"

definition disassemble_op_code :: "uint16_t \<Rightarrow> byte_t" where
  "disassemble_op_code instr = ucast (drop_bit 13 (instr AND push_bit 13 7))"

text \<open>
  The two statements that load the instruction register, each reading
  \<^verbatim>\<open>mem[pc++]\<close>. The array has \<^verbatim>\<open>MEM_BYTE_SIZE\<close> bytes; a read beyond it has no
  defined result: \<open>None\<close>.
\<close>

definition fetch :: "microputer_t \<Rightarrow> microputer_t option" where
  "fetch mp =
     (if unat (pc mp) < MEM_BYTE_SIZE
      then (let mp1 = mp\<lparr>ir := push_bit 8 (ucast (mem mp ! unat (pc mp))), pc := pc mp + 1\<rparr>
            in if unat (pc mp1) < MEM_BYTE_SIZE
               then Some (mp1\<lparr>ir := ir mp1 OR ucast (mem mp1 ! unat (pc mp1)), pc := pc mp1 + 1\<rparr>)
               else None)
      else None)"

text \<open>
  The body of the \<^verbatim>\<open>do ... while\<close> loop: fetch, decode, call the handler, and
  report a handler that did not return \<^verbatim>\<open>SUCCESS\<close>.
\<close>

definition execute_step ::
  "microputer_t \<Rightarrow> console \<Rightarrow> (retcode \<times> microputer_t \<times> console) option" where
  "execute_step mp io =
     (case fetch mp of
        None \<Rightarrow> None
      | Some mp1 \<Rightarrow>
          (let op_code = execute_op_code (ir mp1)
           in case call_handler (handler (instr_set mp1 ! unat op_code)) mp1 io of
                None \<Rightarrow> None
              | Some (rc, mp2, io2) \<Rightarrow>
                  if rc \<noteq> SUCCESS
                  then Some (ERROR, mp2,
                        io2\<lparr>stdout := stdout io2 @ tab @ ''# [ERROR: '' @ dec (unat op_code)
                              @ '' handler returned error code!] #'' @ newline\<rparr>)
                  else Some (SUCCESS, mp2, io2)))"

text \<open>
  The loop can run forever (a branch back with unchanged registers), so the model counts
  its iterations down: the first argument bounds the number of times the body runs.
\<close>

datatype outcome =
  Returns retcode microputer_t console
  | Undefined_behaviour
  | Out_of_fuel

fun execute_micro_program :: "nat \<Rightarrow> microputer_t \<Rightarrow> console \<Rightarrow> outcome" where
  "execute_micro_program 0 mp io = Out_of_fuel"
| "execute_micro_program (Suc n) mp io =
     (case execute_step mp io of
        None \<Rightarrow> Undefined_behaviour
      | Some (rc, mp', io') \<Rightarrow>
          if rc \<noteq> SUCCESS then Returns ERROR mp' io'
          else if uint (pc mp') < uint (loaded_mem_slots mp')
               then execute_micro_program n mp' io'
               else Returns SUCCESS mp' io')"

section \<open>Loading, disassembling and writing the listing\<close>

text \<open>
  \<^verbatim>\<open>write_assembly_file\<close>: the loop over the line buffer, with the text written to
  the file so far as the last argument. The model is of a file that opens and takes
  every write.
\<close>

function write_loop :: "string list \<Rightarrow> byte_t \<Rightarrow> nat \<Rightarrow> string \<Rightarrow> string" where
  "write_loop asm_file_buffer lines i file =
     (if int i < uint lines
      then (let mem_num = snprintf 5 (dec (i * 2) @ '': '');
                file1 = file @ mem_num;
                file2 = file1 @ asm_file_buffer ! i;
                file3 = (if int i < uint lines - 1 then file2 @ newline else file2)
            in write_loop asm_file_buffer lines (i + 1) file3)
      else file)"
  by pat_completeness auto
termination
  apply (relation "measure (\<lambda>(asm_file_buffer, lines, i, file). unat lines - i)")
   apply simp
  apply simp
  unfolding unat_eq_nat_uint
  apply linarith
  done

declare write_loop.simps [simp del]

definition write_assembly_file :: "string list \<Rightarrow> byte_t \<Rightarrow> string" where
  "write_assembly_file asm_file_buffer lines = write_loop asm_file_buffer lines 0 []"

text \<open>
  The reading loop of \<^verbatim>\<open>disassemble_micro_program\<close>, over the bytes the file still
  holds. \<^verbatim>\<open>fread\<close> stores the byte at \<^verbatim>\<open>mem[counter]\<close> before the loop tests
  \<^verbatim>\<open>counter < MEM_BYTE_SIZE\<close>, so the 33rd byte of a longer file is stored one past
  the array; the list update of the model drops that store.

  The line buffer \<^verbatim>\<open>asm_file_buffer_p\<close> is an allocation of \<open>alloc\<close> bytes, the first
  argument, in which line \<open>k\<close> starts at byte \<^verbatim>\<open>MAX_ASM_LINE_LEN\<close> times \<open>k\<close>. The
  model keeps the lines as a list. A disassembler stores the characters of its line and
  the terminator, and \<^verbatim>\<open>write_assembly_file\<close> reads back every line that the loop has
  stored; a line that reaches beyond the allocation has no defined result: \<open>None\<close>.
\<close>

fun load_loop ::
  "nat \<Rightarrow> byte_t list \<Rightarrow> nat \<Rightarrow> microputer_t \<Rightarrow> string list
     \<Rightarrow> (nat \<times> microputer_t \<times> string list) option" where
  "load_loop alloc [] counter mp asm_file_buffer = Some (counter, mp, asm_file_buffer)"
| "load_loop alloc (b # rest) counter mp asm_file_buffer =
     (let mp1 = mp\<lparr>mem := (mem mp)[counter := b]\<rparr>
      in if counter < MEM_BYTE_SIZE
         then (if (counter + 1) mod 2 = 0
               then (let instr0 = push_bit 8 (ucast (mem mp1 ! (counter - 1)) :: uint16_t);
                         instr = instr0 OR ucast (mem mp1 ! counter);
                         op_code = disassemble_op_code instr
                     in case call_disassembler (disassembler (instr_set mp1 ! unat op_code))
                               instr (asm_file_buffer ! (counter div 2)) of
                          None \<Rightarrow> None
                        | Some line \<Rightarrow>
                            if MAX_ASM_LINE_LEN * (counter div 2) + length line + 1 \<le> alloc
                            then load_loop alloc rest (counter + 1) mp1
                                   (asm_file_buffer[counter div 2 := line])
                            else None)
               else load_loop alloc rest (counter + 1) mp1 asm_file_buffer)
         else Some (counter, mp1, asm_file_buffer))"

text \<open>
  \<^verbatim>\<open>disassemble_micro_program\<close> on the bytes of a binary file that could be opened:
  the code it returns, the machine, and the text of the listing file. The line buffer
  is allocated with \<^verbatim>\<open>sizeof( asm_file_buffer_p ) * (MEM_BYTE_SIZE / WORD_SIZE)\<close> bytes,
  the size of a pointer for each line; the size of a pointer is the first argument (8
  where pointers have 64 bits), and the contents that the allocation holds at first are
  the last one.
\<close>

definition disassemble_micro_program ::
  "nat \<Rightarrow> microputer_t \<Rightarrow> byte_t list \<Rightarrow> string list
     \<Rightarrow> (retcode \<times> microputer_t \<times> string) option" where
  "disassemble_micro_program sizeof_pointer mp bin_file asm_file_buffer =
     (case load_loop (sizeof_pointer * (MEM_BYTE_SIZE div WORD_SIZE)) bin_file 0 mp
             asm_file_buffer of
        None \<Rightarrow> None
      | Some (counter, mp1, buf) \<Rightarrow>
          (let mp2 = mp1\<lparr>pc := 0, loaded_mem_slots := of_nat counter\<rparr>
           in Some (SUCCESS, mp2, write_assembly_file buf (of_nat (counter div 2)))))"

section \<open>Vocabulary of the properties\<close>

text \<open>The value of the bits \<open>hi\<close> down to \<open>lo\<close> of an instruction word.\<close>

definition bits :: "uint16_t \<Rightarrow> nat \<Rightarrow> nat \<Rightarrow> nat" where
  "bits w hi lo = (unat w div 2 ^ lo) mod 2 ^ (hi + 1 - lo)"

text \<open>The big-endian word whose high-order byte is at index \<open>p\<close> of the memory.\<close>

definition word_at :: "byte_t list \<Rightarrow> nat \<Rightarrow> uint16_t" where
  "word_at m p = of_nat (256 * unat (m ! p) + unat (m ! (p + 1)))"

text \<open>
  The machine as a handler receives it: the instruction register holds the word at the
  program counter, and the program counter has moved past it.
\<close>

definition fetched :: "microputer_t \<Rightarrow> microputer_t" where
  "fetched mp = mp\<lparr>ir := word_at (mem mp) (unat (pc mp)), pc := pc mp + 2\<rparr>"

text \<open>
  Example machines: the machine that \<^verbatim>\<open>start\<close> creates and sets up, holding the given
  first registers and the given program bytes, with the program counter at 0.
\<close>

definition machine_with :: "byte_t list \<Rightarrow> byte_t list \<Rightarrow> microputer_t" where
  "machine_with regs program =
     (create_instruction_set create_microputer)
       \<lparr>reg := regs @ replicate (NUM_REGISTERS - length regs) 0,
        mem := program @ replicate (MEM_BYTE_SIZE - length program) 0,
        loaded_mem_slots := of_nat (length program)\<rparr>"

definition quiet :: console where
  "quiet = \<lparr>stdin = [], stdout = []\<rparr>"

text \<open>
  The machine a handler receives holds a \<^verbatim>\<open>BLT\<close> word whose comparison succeeds: the
  handler is about to branch.
\<close>

definition branch_taken :: "microputer_t \<Rightarrow> bool" where
  "branch_taken f \<longleftrightarrow>
     bits (ir f) 15 13 = 7 \<and> reg f ! bits (ir f) 12 9 < reg f ! bits (ir f) 8 5"

text \<open>
  The states in which \<^verbatim>\<open>execute_micro_program\<close>, started on \<open>mp0\<close> and \<open>io0\<close>,
  tests the condition of its \<^verbatim>\<open>do ... while\<close> loop: after the first iteration, which
  runs whatever the program counter is, and after every further iteration, which runs
  when the test succeeded.
\<close>

inductive loop_test :: "microputer_t \<Rightarrow> console \<Rightarrow> microputer_t \<Rightarrow> console \<Rightarrow> bool"
  for mp0 :: microputer_t and io0 :: console where
  first: "execute_step mp0 io0 = Some (SUCCESS, mp, io) \<Longrightarrow> loop_test mp0 io0 mp io"
| again: "loop_test mp0 io0 mp io \<Longrightarrow> uint (pc mp) < uint (loaded_mem_slots mp) \<Longrightarrow>
          execute_step mp io = Some (SUCCESS, mp', io') \<Longrightarrow> loop_test mp0 io0 mp' io'"

text \<open>
  The text that the format string of a word's disassembler produces, before
  \<^verbatim>\<open>snprintf\<close> cuts it to the width of a line.
\<close>

definition formatted :: "uint16_t \<Rightarrow> string" where
  "formatted w =
     (if bits w 15 13 = 0 then ''LDI R'' @ dec (bits w 12 9) @ '' '' @ dec (bits w 8 1)
      else if bits w 15 13 = 1 then bit_op_text ''ADD'' (bit_op_extract_instr_args w)
      else if bits w 15 13 = 2 then bit_op_text ''AND'' (bit_op_extract_instr_args w)
      else if bits w 15 13 = 3 then bit_op_text ''OR'' (bit_op_extract_instr_args w)
      else if bits w 15 13 = 4 then bit_op_text ''XOR'' (bit_op_extract_instr_args w)
      else if bits w 15 13 = 5 then ''PRT R'' @ dec (bits w 12 9)
      else if bits w 15 13 = 6 then ''RDD R'' @ dec (bits w 12 9)
      else ''BLT R'' @ dec (bits w 12 9) @ '' R'' @ dec (bits w 8 5) @ '' '' @ dec (bits w 4 0))"

text \<open>Lines joined by single line breaks, with none after the last line.\<close>

fun join_lines :: "string list \<Rightarrow> string" where
  "join_lines [] = []"
| "join_lines [l] = l"
| "join_lines (l # m # ls) = l @ newline @ join_lines (m # ls)"

section \<open>Facts about the decoder and the instruction table\<close>

lemma field_eq: "drop_bit k (w AND push_bit k (mask n)) = take_bit n (drop_bit k w)" for w :: "'a::len word"
  by (rule bit_word_eqI) (auto simp: bit_simps dest: bit_imp_le_length)

lemma unat_field:
  "n \<le> 8 \<Longrightarrow> unat (ucast (drop_bit k (w AND push_bit k (mask n))) :: byte_t) = (unat w div 2 ^ k) mod 2 ^ n"
  for w :: uint16_t
proof -
  assume n: "n \<le> 8"
  have "unat (ucast (take_bit n (drop_bit k w)) :: byte_t) = take_bit n (drop_bit k (unat w))"
    using n by (simp add: unsigned_ucast_eq unsigned_take_bit_eq unat_drop_bit_eq min_def)
  moreover have "take_bit n (drop_bit k (unat w)) = (unat w div 2 ^ k) mod 2 ^ n"
    by (simp add: take_bit_eq_mod drop_bit_eq_div)
  ultimately show ?thesis
    by (simp only: field_eq)
qed

lemma mask_numerals:
  "(7 :: uint16_t) = mask 3" "(0xF :: uint16_t) = mask 4" "(31 :: uint16_t) = mask 5" "(0xFF :: uint16_t) = mask 8"
  by (simp_all add: mask_eq_exp_minus_1)

lemma unat_reg_field:
  "unat (ucast (drop_bit k (w AND push_bit k 0xF)) :: byte_t) = (unat w div 2 ^ k) mod 16" for w :: uint16_t
  using unat_field [of 4 k w] by (simp add: mask_numerals)

lemma unat_lt_65536: "unat (w :: uint16_t) < 65536"
  using unsigned_less [of w, where 'a=nat] by simp

lemma unat_op_field:
  "unat (ucast (drop_bit 13 (w AND push_bit 13 7)) :: byte_t) = unat w div 8192" for w :: uint16_t
proof -
  have "unat w div 8192 < 8" using unat_lt_65536 [of w] by simp
  then show ?thesis using unat_field [of 3 13 w] by (simp add: mask_numerals)
qed

lemma unat_imm_field:
  "unat (ucast (drop_bit 1 (w AND push_bit 1 0xFF)) :: byte_t) = (unat w div 2) mod 256" for w :: uint16_t
  using unat_field [of 8 1 w] by (simp add: mask_numerals)

lemma unat_addr_field:
  "unat (ucast (w AND 31) :: byte_t) = unat w mod 32" for w :: uint16_t
  using unat_field [of 5 0 w] by (simp add: mask_numerals)

lemma op_code_lt: "unat w div 8192 < 8" for w :: uint16_t
  using unat_lt_65536 [of w] by simp

lemma bits_15_13: "bits w 15 13 = unat w div 8192"
  using op_code_lt [of w] by (simp add: bits_def)

lemma bits_lt: "bits w hi lo < 2 ^ (hi + 1 - lo)"
  by (simp add: bits_def)

lemma execute_op_code_unat: "unat (execute_op_code w) = bits w 15 13"
  using unat_op_field [of w] by (simp add: execute_op_code_def bits_15_13)

lemma disassemble_op_code_unat: "unat (disassemble_op_code w) = bits w 15 13"
  using unat_op_field [of w] by (simp add: disassemble_op_code_def bits_15_13)

lemma bit_op_args:
  "unat (bit_op_extract_instr_args w ! 0) = bits w 15 13"
  "unat (bit_op_extract_instr_args w ! 1) = bits w 12 9"
  "unat (bit_op_extract_instr_args w ! 2) = bits w 8 5"
  "unat (bit_op_extract_instr_args w ! 3) = bits w 4 1"
  using unat_op_field [of w] unat_reg_field [of 9 w] unat_reg_field [of 5 w] unat_reg_field [of 1 w]
    op_code_lt [of w]
  by (simp_all add: bit_op_extract_instr_args_def bits_def)

lemma ldi_args:
  "unat (ldi_extract_instr_args w ! 0) = bits w 12 9"
  "unat (ldi_extract_instr_args w ! 1) = bits w 8 1"
  using unat_reg_field [of 9 w] unat_imm_field [of w]
  by (simp_all add: ldi_extract_instr_args_def bits_def)

lemma prt_args: "unat (prt_extract_instr_args w ! 0) = bits w 12 9"
  using unat_reg_field [of 9 w] by (simp add: prt_extract_instr_args_def bits_def)

lemma rdd_args: "unat (rdd_extract_instr_args w ! 0) = bits w 12 9"
  using unat_reg_field [of 9 w] by (simp add: rdd_extract_instr_args_def bits_def)

lemma blt_args:
  "unat (blt_extract_instr_args w ! 0) = bits w 12 9"
  "unat (blt_extract_instr_args w ! 1) = bits w 8 5"
  "unat (blt_extract_instr_args w ! 2) = bits w 4 0"
  using unat_reg_field [of 9 w] unat_reg_field [of 5 w] unat_addr_field [of w]
  by (simp_all add: blt_extract_instr_args_def bits_def)

lemma byte_eq_numeral_iff: "(b :: byte_t) = of_nat k \<longleftrightarrow> unat b = k" if "k < 256"
  using that by (auto simp: unat_of_nat word_unat_eq_iff)

lemma table_entries:
  "instr_set (create_instruction_set create_microputer) =
     [\<lparr>handler = ldi_handler_ptr, disassembler = ldi_disassembler_ptr\<rparr>,
      \<lparr>handler = bit_op_handler_ptr, disassembler = bit_op_disassembler_ptr\<rparr>,
      \<lparr>handler = bit_op_handler_ptr, disassembler = bit_op_disassembler_ptr\<rparr>,
      \<lparr>handler = bit_op_handler_ptr, disassembler = bit_op_disassembler_ptr\<rparr>,
      \<lparr>handler = bit_op_handler_ptr, disassembler = bit_op_disassembler_ptr\<rparr>,
      \<lparr>handler = prt_handler_ptr, disassembler = prt_disassembler_ptr\<rparr>,
      \<lparr>handler = rdd_handler_ptr, disassembler = rdd_disassembler_ptr\<rparr>,
      \<lparr>handler = blt_handler_ptr, disassembler = blt_disassembler_ptr\<rparr>]"
  by (simp add: create_instruction_set_def create_microputer_def NUM_INSTRUCTIONS_def eval_nat_numeral)

lemma lt_8_cases: "n < 8 \<Longrightarrow> n \<in> {0, 1, 2, 3, 4, 5, 6, 7 :: nat}"
  by auto

lemma table_handler:
  assumes "table_set_up mp"
  shows "handler (instr_set mp ! unat (execute_op_code w)) =
     (if bits w 15 13 = 0 then ldi_handler_ptr
      else if bits w 15 13 \<le> 4 then bit_op_handler_ptr
      else if bits w 15 13 = 5 then prt_handler_ptr
      else if bits w 15 13 = 6 then rdd_handler_ptr
      else blt_handler_ptr)"
proof -
  have "bits w 15 13 < 8" using bits_lt [of w 15 13] by simp
  then show ?thesis
    using assms lt_8_cases [of "bits w 15 13"]
    by (auto simp: table_set_up_def table_entries execute_op_code_unat)
qed

lemma byte_eq_iff_unat: "(b :: byte_t) = numeral k \<longleftrightarrow> unat b = numeral k" if "numeral k < (256::nat)"
  using that by (metis byte_eq_numeral_iff of_nat_numeral)

lemma byte_eq_1_iff_unat: "(b :: byte_t) = 1 \<longleftrightarrow> unat b = 1"
  using byte_eq_numeral_iff [of 1 b] by simp

lemma bit_op_handler_eq:
  "bit_op_handler mp io =
     (let a = reg mp ! bits (ir mp) 12 9; b = reg mp ! bits (ir mp) 8 5; k = bits (ir mp) 4 1
      in if bits (ir mp) 15 13 = 1 then (SUCCESS, mp\<lparr>reg := (reg mp)[k := a + b]\<rparr>, io)
         else if bits (ir mp) 15 13 = 2 then (SUCCESS, mp\<lparr>reg := (reg mp)[k := a AND b]\<rparr>, io)
         else if bits (ir mp) 15 13 = 3 then (SUCCESS, mp\<lparr>reg := (reg mp)[k := a OR b]\<rparr>, io)
         else if bits (ir mp) 15 13 = 4 then (SUCCESS, mp\<lparr>reg := (reg mp)[k := a XOR b]\<rparr>, io)
         else (ERROR, mp, io))"
  unfolding bit_op_handler_def Let_def
  by (simp only: byte_eq_1_iff_unat byte_eq_iff_unat bit_op_args) simp

section \<open>Facts about the fetch and the handlers\<close>

lemma big_endian: "push_bit 8 (ucast hi) OR ucast lo = (of_nat (256 * unat hi + unat lo) :: uint16_t)"
  for hi lo :: byte_t
proof -
  have "push_bit 8 (ucast hi :: uint16_t) AND ucast lo = 0"
    by (rule bit_word_eqI) (auto simp: bit_simps dest: bit_imp_le_length)
  then have "push_bit 8 (ucast hi :: uint16_t) OR ucast lo = push_bit 8 (ucast hi) + ucast lo"
    by (rule disjunctive_add_eq_or [symmetric])
  also have "\<dots> = of_nat (256 * unat hi + unat lo)"
    by (simp add: push_bit_eq_mult)
  finally show ?thesis .
qed

lemma fetch_eq:
  assumes "unat (pc mp) + 1 < MEM_BYTE_SIZE"
  shows "fetch mp = Some (mp\<lparr>ir := word_at (mem mp) (unat (pc mp)), pc := pc mp + 2\<rparr>)"
proof -
  have 1: "unat (pc mp + 1) = unat (pc mp) + 1"
    using assms by (simp add: MEM_BYTE_SIZE_def unat_word_ariths)
  show ?thesis
    using assms by (simp add: fetch_def Let_def 1 big_endian word_at_def)
qed

lemma ldi_handler_eq:
  "ldi_handler mp io =
     (SUCCESS, mp\<lparr>reg := (reg mp)[bits (ir mp) 12 9 := of_nat (bits (ir mp) 8 1)]\<rparr>, io)"
proof -
  have "ldi_extract_instr_args (ir mp) ! 1 = of_nat (unat (ldi_extract_instr_args (ir mp) ! 1))"
    by simp
  then have "ldi_extract_instr_args (ir mp) ! 1 = of_nat (bits (ir mp) 8 1)"
    by (simp only: ldi_args)
  then show ?thesis
    by (simp only: ldi_handler_def Let_def ldi_args)
qed

lemma prt_handler_eq:
  "prt_handler mp io =
     (SUCCESS, mp, io\<lparr>stdout := stdout io @ ''R'' @ dec (bits (ir mp) 12 9) @ '' = ''
         @ dec (unat (reg mp ! bits (ir mp) 12 9)) @ newline\<rparr>)"
  by (simp only: prt_handler_def Let_def prt_args)

lemma rdd_handler_reg:
  "rdd_handler mp io = (rc, mp', io') \<Longrightarrow>
     rc = SUCCESS \<and> (\<exists>v. mp' = mp\<lparr>reg := (reg mp)[bits (ir mp) 12 9 := v]\<rparr>)"
  by (auto simp only: rdd_handler_def Let_def rdd_args)

lemma blt_handler_eq:
  "blt_handler mp io =
     (if reg mp ! bits (ir mp) 12 9 < reg mp ! bits (ir mp) 8 5
      then (if odd (bits (ir mp) 4 0)
            then (ERROR, mp, io\<lparr>stdout := stdout io @ '' # [ERROR: Address must be on word boundary!] #''\<rparr>)
            else (SUCCESS, mp\<lparr>pc := of_nat (bits (ir mp) 4 0)\<rparr>, io))
      else (SUCCESS, mp, io))"
proof -
  have h: "uint (blt_extract_instr_args (ir mp) ! 2) = int (bits (ir mp) 4 0)"
    by (simp only: uint_nat blt_args)
  have a: "uint (blt_extract_instr_args (ir mp) ! 2) mod 2 \<noteq> 0 \<longleftrightarrow> odd (bits (ir mp) 4 0)"
    unfolding h by presburger
  have "(ucast (blt_extract_instr_args (ir mp) ! 2) :: uint16_t)
      = of_nat (unat (blt_extract_instr_args (ir mp) ! 2))"
    by simp
  then have b: "(ucast (blt_extract_instr_args (ir mp) ! 2) :: uint16_t) = of_nat (bits (ir mp) 4 0)"
    by (simp only: blt_args)
  show ?thesis
    by (simp only: blt_handler_def Let_def a b blt_args word_less_def [symmetric])
qed

lemma fetch_fetched: "unat (pc mp) + 1 < MEM_BYTE_SIZE \<Longrightarrow> fetch mp = Some (fetched mp)"
  by (simp only: fetch_eq fetched_def)

lemma fetched_simps:
  "ir (fetched mp) = word_at (mem mp) (unat (pc mp))"
  "pc (fetched mp) = pc mp + 2"
  "reg (fetched mp) = reg mp"
  "mem (fetched mp) = mem mp"
  "loaded_mem_slots (fetched mp) = loaded_mem_slots mp"
  "instr_set (fetched mp) = instr_set mp"
  by (simp_all add: fetched_def)

lemma table_set_up_fetched: "table_set_up (fetched mp) = table_set_up mp"
  by (simp add: table_set_up_def fetched_simps)

lemma execute_step_eq:
  assumes "table_set_up mp" and "unat (pc mp) + 1 < MEM_BYTE_SIZE"
  shows "execute_step mp io =
     (if bits (ir (fetched mp)) 15 13 = 0 then Some (ldi_handler (fetched mp) io)
      else if bits (ir (fetched mp)) 15 13 \<le> 4 then Some (bit_op_handler (fetched mp) io)
      else if bits (ir (fetched mp)) 15 13 = 5 then Some (prt_handler (fetched mp) io)
      else if bits (ir (fetched mp)) 15 13 = 6 then Some (rdd_handler (fetched mp) io)
      else (case blt_handler (fetched mp) io of
              (rc, mp2, io2) \<Rightarrow>
                if rc \<noteq> SUCCESS
                then Some (ERROR, mp2, io2\<lparr>stdout := stdout io2 @ tab @ ''# [ERROR: '' @ dec 7
                              @ '' handler returned error code!] #'' @ newline\<rparr>)
                else Some (SUCCESS, mp2, io2)))"
proof -
  let ?f = "fetched mp"
  let ?op = "bits (ir ?f) 15 13"
  have t: "table_set_up ?f" using assms(1) by (simp add: table_set_up_fetched)
  have lt: "?op < 8" using bits_lt [of "ir ?f" 15 13] by simp
  have step: "execute_step mp io =
      (case call_handler (handler (instr_set ?f ! unat (execute_op_code (ir ?f)))) ?f io of
         None \<Rightarrow> None
       | Some (rc, mp2, io2) \<Rightarrow>
           if rc \<noteq> SUCCESS
           then Some (ERROR, mp2, io2\<lparr>stdout := stdout io2 @ tab @ ''# [ERROR: '' @ dec ?op
                         @ '' handler returned error code!] #'' @ newline\<rparr>)
           else Some (SUCCESS, mp2, io2))"
    by (simp only: execute_step_def fetch_fetched [OF assms(2)] option.case Let_def execute_op_code_unat)
  have ldi: "fst (ldi_handler ?f io) = SUCCESS" by (simp add: ldi_handler_eq)
  have prt: "fst (prt_handler ?f io) = SUCCESS" by (simp add: prt_handler_eq)
  have rdd: "fst (rdd_handler ?f io) = SUCCESS"
    using rdd_handler_reg [of ?f io] by (cases "rdd_handler ?f io") simp
  have bit: "1 \<le> ?op \<Longrightarrow> ?op \<le> 4 \<Longrightarrow> fst (bit_op_handler ?f io) = SUCCESS"
    using lt_8_cases [OF lt] by (auto simp: bit_op_handler_eq Let_def)
  show ?thesis
  proof (cases "?op = 0")
    case True
    then show ?thesis using ldi
      by (cases "ldi_handler ?f io") (simp add: step table_handler [OF t])
  next
    case n0: False
    show ?thesis
    proof (cases "?op \<le> 4")
      case True
      then show ?thesis using n0 bit
        by (cases "bit_op_handler ?f io") (simp add: step table_handler [OF t])
    next
      case n4: False
      show ?thesis
      proof (cases "?op = 5")
        case True
        then show ?thesis using prt
          by (cases "prt_handler ?f io") (simp add: step table_handler [OF t])
      next
        case n5: False
        show ?thesis
        proof (cases "?op = 6")
          case True
          then show ?thesis using rdd
            by (cases "rdd_handler ?f io") (simp add: step table_handler [OF t])
        next
          case False
          then have "?op = 7" using n0 n4 n5 lt by arith
          then show ?thesis
            by (cases "blt_handler ?f io") (simp add: step table_handler [OF t])
        qed
      qed
    qed
  qed
qed

lemma machine_with_simps:
  "instr_set (machine_with regs program) = instr_set (create_instruction_set create_microputer)"
  "reg (machine_with regs program) = regs @ replicate (16 - length regs) 0"
  "mem (machine_with regs program) = program @ replicate (32 - length program) 0"
  "loaded_mem_slots (machine_with regs program) = of_nat (length program)"
  "pc (machine_with regs program) = 0"
  "ir (machine_with regs program) = 0"
  by (simp_all add: machine_with_def create_instruction_set_def create_microputer_def
      NUM_REGISTERS_def MEM_BYTE_SIZE_def)

lemma machine_with_ok:
  "length regs \<le> 16 \<Longrightarrow> length program \<le> 32 \<Longrightarrow> machine_ok (machine_with regs program)"
  "table_set_up (machine_with regs program)"
  by (simp_all add: machine_ok_def table_set_up_def machine_with_simps table_entries
      NUM_INSTRUCTIONS_def NUM_REGISTERS_def MEM_BYTE_SIZE_def)

section \<open>The lines of the disassemblers\<close>

lemma dec_small: "n < 10 \<Longrightarrow> dec n = [digit_char n]"
  by (subst dec.simps) simp

lemma dec_large: "\<not> n < 10 \<Longrightarrow> dec n = dec (n div 10) @ [digit_char (n mod 10)]"
  by (subst dec.simps) simp

lemma length_dec: "n < 100 \<Longrightarrow> length (dec n) = (if n < 10 then 1 else 2)"
proof (cases "n < 10")
  case True
  then show ?thesis by (simp add: dec_small)
next
  case False
  assume "n < 100"
  then have "n div 10 < 10" by simp
  then show ?thesis using False by (simp add: dec_large dec_small)
qed

lemma length_dec_le3: "n < 1000 \<Longrightarrow> length (dec n) \<le> 3"
proof (cases "n < 10")
  case True
  then show ?thesis by (simp add: dec_small)
next
  case False
  assume "n < 1000"
  then have "n div 10 < 100" by simp
  then show ?thesis using False length_dec [of "n div 10"] by (simp add: dec_large)
qed

lemma digit_char_range: "d < 10 \<Longrightarrow> digit_char d \<in> set ''0123456789''"
  unfolding digit_char_def by (rule nth_mem) simp

lemma set_dec: "set (dec n) \<subseteq> set ''0123456789''"
proof (induction n rule: dec.induct)
  case (1 n)
  show ?case
  proof (cases "n < 10")
    case True
    then show ?thesis
      using digit_char_range [of n] by (subst dec.simps) simp
  next
    case False
    have "n mod 10 < 10" by simp
    then show ?thesis
      using False 1 digit_char_range [of "n mod 10"] by (subst dec.simps) simp
  qed
qed

lemma newline_not_in_dec: "CHR 0x0A \<notin> set (dec n)"
  using set_dec [of n] by auto

lemma bit_op_text_bits:
  "bit_op_text name (bit_op_extract_instr_args w)
     = name @ '' R'' @ dec (bits w 12 9) @ '' R'' @ dec (bits w 8 5) @ '' R'' @ dec (bits w 4 1)"
  by (simp only: bit_op_text_def bit_op_args)

lemma table_disassembler:
  assumes "table_set_up mp"
  shows "disassembler (instr_set mp ! unat (disassemble_op_code w)) =
     (if bits w 15 13 = 0 then ldi_disassembler_ptr
      else if bits w 15 13 \<le> 4 then bit_op_disassembler_ptr
      else if bits w 15 13 = 5 then prt_disassembler_ptr
      else if bits w 15 13 = 6 then rdd_disassembler_ptr
      else blt_disassembler_ptr)"
proof -
  have "bits w 15 13 < 8" using bits_lt [of w 15 13] by simp
  then show ?thesis
    using assms lt_8_cases [of "bits w 15 13"]
    by (auto simp: table_set_up_def table_entries disassemble_op_code_unat)
qed

lemma bit_op_disassembler_eq:
  "bit_op_disassembler w old =
     (if bits w 15 13 = 1 then snprintf MAX_ASM_LINE_LEN (bit_op_text ''ADD'' (bit_op_extract_instr_args w))
      else if bits w 15 13 = 2 then snprintf MAX_ASM_LINE_LEN (bit_op_text ''AND'' (bit_op_extract_instr_args w))
      else if bits w 15 13 = 3 then snprintf MAX_ASM_LINE_LEN (bit_op_text ''OR'' (bit_op_extract_instr_args w))
      else if bits w 15 13 = 4 then snprintf MAX_ASM_LINE_LEN (bit_op_text ''XOR'' (bit_op_extract_instr_args w))
      else old)"
  unfolding bit_op_disassembler_def Let_def
  by (simp only: byte_eq_1_iff_unat byte_eq_iff_unat bit_op_args)

lemma call_disassembler_formatted:
  assumes "table_set_up mp"
  shows "call_disassembler (disassembler (instr_set mp ! unat (disassemble_op_code w))) w old
           = Some (take 14 (formatted w))"
proof -
  have lt: "bits w 15 13 < 8" using bits_lt [of w 15 13] by simp
  have ldi: "ldi_disassembler w old = take 14 (''LDI R'' @ dec (bits w 12 9) @ '' '' @ dec (bits w 8 1))"
    unfolding ldi_disassembler_def Let_def ldi_args snprintf_def MAX_ASM_LINE_LEN_def by simp
  have prt: "prt_disassembler w old = take 14 (''PRT R'' @ dec (bits w 12 9))"
    unfolding prt_disassembler_def Let_def prt_args snprintf_def MAX_ASM_LINE_LEN_def by simp
  have rdd: "rdd_disassembler w old = take 14 (''RDD R'' @ dec (bits w 12 9))"
    unfolding rdd_disassembler_def Let_def rdd_args snprintf_def MAX_ASM_LINE_LEN_def by simp
  have blt: "blt_disassembler w old
      = take 14 (''BLT R'' @ dec (bits w 12 9) @ '' R'' @ dec (bits w 8 5) @ '' '' @ dec (bits w 4 0))"
    unfolding blt_disassembler_def Let_def blt_args snprintf_def MAX_ASM_LINE_LEN_def by simp
  have "bits w 15 13 \<in> {0, 1, 2, 3, 4, 5, 6, 7}"
    using lt_8_cases [OF lt] .
  then show ?thesis
    unfolding table_disassembler [OF assms]
    by (auto simp: formatted_def ldi prt rdd blt bit_op_disassembler_eq snprintf_def MAX_ASM_LINE_LEN_def)
qed

lemma reg_field_lt: "bits w 12 9 < 16" "bits w 8 5 < 16" "bits w 4 1 < 16" "bits w 8 1 < 256" "bits w 4 0 < 32"
  using bits_lt [of w 12 9] bits_lt [of w 8 5] bits_lt [of w 4 1] bits_lt [of w 8 1] bits_lt [of w 4 0]
  by simp_all

lemma length_dec_reg: "n < 100 \<Longrightarrow> length (dec n) \<le> 2" "n < 100 \<Longrightarrow> 1 \<le> length (dec n)"
  by (simp_all add: length_dec)

lemma length_formatted:
  "length (formatted w) \<le> 15
   \<and> (14 < length (formatted w) \<longleftrightarrow>
        bits w 15 13 \<in> {1, 2, 4} \<and> 10 \<le> bits w 12 9 \<and> 10 \<le> bits w 8 5 \<and> 10 \<le> bits w 4 1)"
proof -
  have lt: "bits w 15 13 < 8" using bits_lt [of w 15 13] by simp
  have a: "length (dec (bits w 12 9)) = (if bits w 12 9 < 10 then 1 else 2)"
    and b: "length (dec (bits w 8 5)) = (if bits w 8 5 < 10 then 1 else 2)"
    and c: "length (dec (bits w 4 1)) = (if bits w 4 1 < 10 then 1 else 2)"
    and d: "length (dec (bits w 4 0)) \<le> 2"
    and e: "length (dec (bits w 8 1)) \<le> 3"
    using reg_field_lt [of w] by (simp_all add: length_dec length_dec_le3)
  consider "bits w 15 13 = 0" | "bits w 15 13 = 1" | "bits w 15 13 = 2" | "bits w 15 13 = 3"
    | "bits w 15 13 = 4" | "bits w 15 13 = 5" | "bits w 15 13 = 6" | "bits w 15 13 = 7"
    using lt by arith
  then show ?thesis
  proof cases
    case 1
    then show ?thesis using e by (simp add: formatted_def a del: One_nat_def)
  next
    case 2
    then show ?thesis by (simp add: formatted_def bit_op_text_bits a b c del: One_nat_def)
  next
    case 3
    then show ?thesis by (simp add: formatted_def bit_op_text_bits a b c del: One_nat_def)
  next
    case 4
    then show ?thesis by (simp add: formatted_def bit_op_text_bits a b c del: One_nat_def)
  next
    case 5
    then show ?thesis by (simp add: formatted_def bit_op_text_bits a b c del: One_nat_def)
  next
    case 6
    then show ?thesis by (simp add: formatted_def a)
  next
    case 7
    then show ?thesis by (simp add: formatted_def a)
  next
    case 8
    then show ?thesis using d by (simp add: formatted_def a b)
  qed
qed

text \<open>
  Claim C10. For every 16-bit word, the disassembler that the instruction table selects
  for the word writes a line, never an error: the formatted text cut to 14 characters,
  one less than \<^verbatim>\<open>MAX_ASM_LINE_LEN\<close>. A text that fits is written whole. The only
  texts that do not fit are those of \<^verbatim>\<open>ADD\<close>, \<^verbatim>\<open>AND\<close> and \<^verbatim>\<open>XOR\<close> with three
  register indices of two digits: they have 15 characters and lose the last one. In the
  example \<^verbatim>\<open>ADD R10 R10 R10\<close> is written as \<^verbatim>\<open>ADD R10 R10 R1\<close>.
\<close>

theorem disassembly_line_width:
  assumes "table_set_up mp"
  shows "\<exists>line. call_disassembler (disassembler (instr_set mp ! unat (disassemble_op_code w))) w old
                 = Some line
          \<and> line = take (MAX_ASM_LINE_LEN - 1) (formatted w)
          \<and> length line < MAX_ASM_LINE_LEN
          \<and> (length (formatted w) < MAX_ASM_LINE_LEN \<longrightarrow> line = formatted w)
          \<and> (MAX_ASM_LINE_LEN \<le> length (formatted w) \<longleftrightarrow>
                bits w 15 13 \<in> {1, 2, 4} \<and> 10 \<le> bits w 12 9 \<and> 10 \<le> bits w 8 5
                \<and> 10 \<le> bits w 4 1)
          \<and> (MAX_ASM_LINE_LEN \<le> length (formatted w) \<longrightarrow>
                length (formatted w) = 15 \<and> length line = 14 \<and> line = butlast (formatted w))"
proof -
  let ?line = "take 14 (formatted w)"
  have c: "call_disassembler (disassembler (instr_set mp ! unat (disassemble_op_code w))) w old
            = Some ?line"
    by (rule call_disassembler_formatted [OF assms])
  have l: "length (formatted w) \<le> 15"
    and t: "14 < length (formatted w) \<longleftrightarrow>
        bits w 15 13 \<in> {1, 2, 4} \<and> 10 \<le> bits w 12 9 \<and> 10 \<le> bits w 8 5 \<and> 10 \<le> bits w 4 1"
    using length_formatted [of w] by blast+
  have b: "length (formatted w) = 15 \<Longrightarrow> ?line = butlast (formatted w)"
    by (simp add: butlast_conv_take)
  show ?thesis
    using c l t b by (auto simp: MAX_ASM_LINE_LEN_def)
qed

theorem disassembly_line_width_witness:
  "call_disassembler
     (disassembler (instr_set (machine_with [] []) ! unat (disassemble_op_code 0x3554))) 0x3554 []
     = Some ''ADD R10 R10 R1''
   \<and> formatted 0x3554 = ''ADD R10 R10 R10''"
proof -
  have f: "formatted 0x3554 = ''ADD R10 R10 R10''"
    by (simp add: formatted_def bit_op_text_bits bits_def dec_large dec_small digit_char_def)
  from disassembly_line_width [OF machine_with_ok(2), of "[]" "[]" "0x3554" "[]"]
  show ?thesis
    unfolding f by (auto simp: MAX_ASM_LINE_LEN_def)
qed

section \<open>The listing\<close>

lemma join_lines_Cons:
  "join_lines (x # xs) = x @ (if xs = [] then [] else newline @ join_lines xs)"
  by (cases xs) simp_all

lemma address_prefix: "i < 50 \<Longrightarrow> snprintf 5 (dec (i * 2) @ '': '') = dec (2 * i) @ '': ''"
proof -
  assume "i < 50"
  then have "length (dec (i * 2)) \<le> 2"
    using length_dec_reg(1) [of "i * 2"] by simp
  then show ?thesis
    by (simp add: snprintf_def mult.commute)
qed

lemma int_less_uint: "int i < uint (w :: byte_t) \<longleftrightarrow> i < unat w"
  by (simp only: uint_nat of_nat_less_iff)

lemma write_loop_eq:
  assumes "unat lines \<le> 50"
  shows "i \<le> unat lines \<Longrightarrow>
     write_loop buf lines i out
       = out @ join_lines (map (\<lambda>k. dec (2 * k) @ '': '' @ buf ! k) [i..<unat lines])"
proof (induction "unat lines - i" arbitrary: i out)
  case 0
  then have "\<not> int i < uint lines"
    by (simp add: int_less_uint)
  then show ?case
    using 0 by (subst write_loop.simps) simp
next
  case (Suc d)
  let ?f = "\<lambda>k. dec (2 * k) @ '': '' @ buf ! k"
  have lt: "i < unat lines"
    using Suc.hyps(2) by simp
  then have c: "int i < uint lines"
    by (simp add: int_less_uint)
  have i50: "i < 50"
    using lt assms by simp
  have sep: "int i < uint lines - 1 \<longleftrightarrow> i + 1 < unat lines"
    unfolding uint_nat by linarith
  have d: "d = unat lines - (i + 1)" and le: "i + 1 \<le> unat lines"
    using Suc.hyps(2) by simp_all
  have "write_loop buf lines i out
      = write_loop buf lines (i + 1)
          (out @ ?f i @ (if i + 1 < unat lines then newline else []))"
    using c by (subst write_loop.simps) (simp add: Let_def address_prefix [OF i50] sep)
  also have "\<dots> = (out @ ?f i @ (if i + 1 < unat lines then newline else []))
      @ join_lines (map ?f [i + 1..<unat lines])"
    by (rule Suc.hyps(1) [OF d le])
  also have "\<dots> = out @ join_lines (map ?f [i..<unat lines])"
    using lt by (simp add: upt_conv_Cons join_lines_Cons)
  finally show ?case .
qed

lemma write_assembly_file_eq:
  "unat lines \<le> 50 \<Longrightarrow>
     write_assembly_file buf lines
       = join_lines (map (\<lambda>k. dec (2 * k) @ '': '' @ buf ! k) [0..<unat lines])"
  using write_loop_eq [of lines 0 buf "[]"] by (simp add: write_assembly_file_def)

lemma word_at_update: "p + 1 < c \<Longrightarrow> word_at (m[c := b]) p = word_at m p"
  by (simp add: word_at_def)

lemma mem_step:
  assumes "\<forall>i<32. m' ! i = (if Suc counter \<le> i \<and> i < Suc counter + length rest
                              then rest ! (i - Suc counter) else m[counter := b] ! i)"
    and "counter < length m"
  shows "\<forall>i<32. m' ! i = (if counter \<le> i \<and> i < counter + length (b # rest)
                           then (b # rest) ! (i - counter) else m ! i)"
proof (intro allI impI)
  fix i :: nat
  assume i: "i < 32"
  consider "i < counter" | "i = counter" | "counter < i" by arith
  then show "m' ! i = (if counter \<le> i \<and> i < counter + length (b # rest)
                           then (b # rest) ! (i - counter) else m ! i)"
  proof cases
    case 1
    then show ?thesis using assms i by simp
  next
    case 2
    then show ?thesis using assms i by simp
  next
    case 3
    then have "(b # rest) ! (i - counter) = rest ! (i - Suc counter)"
      by (simp add: nth_Cons')
    then show ?thesis using assms i 3 by simp
  qed
qed

lemma buf_step_odd:
  assumes "\<forall>k. 2 * k + 1 < counter \<longrightarrow> buf ! k = take 14 (formatted (word_at m (2 * k)))"
    and "odd counter" and "counter div 2 < length buf"
  shows "\<forall>k. 2 * k + 1 < Suc counter \<longrightarrow>
           buf[counter div 2 := take 14 (formatted (word_at (m[counter := b]) (counter - 1)))] ! k
             = take 14 (formatted (word_at (m[counter := b]) (2 * k)))"
proof (intro allI impI)
  fix k
  assume k: "2 * k + 1 < Suc counter"
  show "buf[counter div 2 := take 14 (formatted (word_at (m[counter := b]) (counter - 1)))] ! k
             = take 14 (formatted (word_at (m[counter := b]) (2 * k)))"
  proof (cases "2 * k + 1 = counter")
    case True
    then have "k = counter div 2" "2 * k = counter - 1" by arith+
    then show ?thesis using assms(3) by simp
  next
    case False
    then have lt: "2 * k + 1 < counter" using k by arith
    then have "k \<noteq> counter div 2" by arith
    then show ?thesis
      using assms(1) lt by (simp add: word_at_update)
  qed
qed

lemma buf_step_even:
  assumes "\<forall>k. 2 * k + 1 < counter \<longrightarrow> buf ! k = take 14 (formatted (word_at m (2 * k)))"
    and "even counter"
  shows "\<forall>k. 2 * k + 1 < Suc counter \<longrightarrow>
           buf ! k = take 14 (formatted (word_at (m[counter := b]) (2 * k)))"
proof (intro allI impI)
  fix k
  assume k: "2 * k + 1 < Suc counter"
  have "2 * k + 1 \<noteq> counter" using assms(2) by presburger
  then have lt: "2 * k + 1 < counter" using k by arith
  then show "buf ! k = take 14 (formatted (word_at (m[counter := b]) (2 * k)))"
    using assms(1) by (simp add: word_at_update)
qed

lemma load_loop_result:
  assumes "table_set_up mp" and "length (mem mp) = 32" and "length buf = 16" and "counter \<le> 32"
    and "\<forall>k. 2 * k + 1 < counter \<longrightarrow> buf ! k = take 14 (formatted (word_at (mem mp) (2 * k)))"
    and "15 * (min (counter + length bs) 32 div 2) \<le> alloc"
  shows "\<exists>m' buf'. load_loop alloc bs counter mp buf
              = Some (min (counter + length bs) 32, mp\<lparr>mem := m'\<rparr>, buf')
          \<and> length m' = 32 \<and> length buf' = 16
          \<and> (\<forall>i<32. m' ! i = (if counter \<le> i \<and> i < counter + length bs
                                then bs ! (i - counter) else mem mp ! i))
          \<and> (\<forall>k. 2 * k + 1 < min (counter + length bs) 32 \<longrightarrow>
                 buf' ! k = take 14 (formatted (word_at m' (2 * k))))"
  using assms
proof (induction bs arbitrary: counter mp buf)
  case Nil
  then show ?case
    by (intro exI [of _ "mem mp"] exI [of _ buf]) auto
next
  case (Cons b rest)
  let ?m1 = "(mem mp)[counter := b]"
  let ?mp1 = "mp\<lparr>mem := ?m1\<rparr>"
  show ?case
  proof (cases "counter < 32")
    case False
    then have c: "counter = 32" using Cons.prems(4) by simp
    then have "?m1 = mem mp" using Cons.prems(2) by (simp add: list_update_beyond)
    then show ?thesis
      using c Cons.prems
      by (intro exI [of _ "mem mp"] exI [of _ buf]) (simp add: MEM_BYTE_SIZE_def)
  next
    case True
    have t1: "table_set_up ?mp1"
      using Cons.prems(1) by (simp add: table_set_up_def)
    have l1: "length (mem ?mp1) = 32"
      using Cons.prems(2) by simp
    have c1: "Suc counter \<le> 32"
      using True by simp
    have cl: "counter < length (mem mp)"
      using True Cons.prems(2) by simp
    have a1: "15 * (min (Suc counter + length rest) 32 div 2) \<le> alloc"
      using Cons.prems(6) by simp
    show ?thesis
    proof (cases "odd counter")
      case odd: True
      let ?line = "take 14 (formatted (word_at ?m1 (counter - 1)))"
      let ?buf1 = "buf[counter div 2 := ?line]"
      have pos: "counter - 1 + 1 = counter"
        using odd by (cases counter) simp_all
      have w: "push_bit 8 (ucast (?m1 ! (counter - 1)) :: uint16_t) OR ucast (?m1 ! counter)
             = word_at ?m1 (counter - 1)"
        unfolding word_at_def pos by (simp add: big_endian)
      have dl: "counter div 2 < length buf"
        using True Cons.prems(3) by simp
      have i1: "\<forall>k. 2 * k + 1 < Suc counter \<longrightarrow>
           ?buf1 ! k = take 14 (formatted (word_at (mem ?mp1) (2 * k)))"
        using buf_step_odd [OF Cons.prems(5) odd dl, of b] by simp
      have b1: "length ?buf1 = 16"
        using Cons.prems(3) by simp
      have "Suc (counter div 2) \<le> min (counter + length (b # rest)) 32 div 2"
        using odd True by (simp del: One_nat_def) presburger
      then have "15 * Suc (counter div 2) \<le> alloc"
        using Cons.prems(6) by (meson le_trans mult_le_mono2)
      then have fit: "MAX_ASM_LINE_LEN * (counter div 2) + length ?line + 1 \<le> alloc"
        by (simp add: MAX_ASM_LINE_LEN_def)
      from Cons.IH [OF t1 l1 b1 c1 i1 a1] obtain m' buf'
        where r: "load_loop alloc rest (Suc counter) ?mp1 ?buf1
                    = Some (min (Suc counter + length rest) 32, ?mp1\<lparr>mem := m'\<rparr>, buf')"
          and f: "length m' = 32" "length buf' = 16"
          and mm: "\<forall>i<32. m' ! i = (if Suc counter \<le> i \<and> i < Suc counter + length rest
                                then rest ! (i - Suc counter) else mem ?mp1 ! i)"
          and bb: "\<forall>k. 2 * k + 1 < min (Suc counter + length rest) 32 \<longrightarrow>
                 buf' ! k = take 14 (formatted (word_at m' (2 * k)))"
        by blast
      have step: "load_loop alloc (b # rest) counter mp buf
                    = load_loop alloc rest (Suc counter) ?mp1 ?buf1"
        using True odd fit
        by (simp add: Let_def MEM_BYTE_SIZE_def w call_disassembler_formatted [OF Cons.prems(1)]
            del: One_nat_def) simp
      have mm1: "\<forall>i<32. m' ! i = (if Suc counter \<le> i \<and> i < Suc counter + length rest
                                then rest ! (i - Suc counter) else ?m1 ! i)"
        using mm by simp
      have mm': "\<forall>i<32. m' ! i = (if counter \<le> i \<and> i < counter + length (b # rest)
                           then (b # rest) ! (i - counter) else mem mp ! i)"
        by (rule mem_step [OF mm1 cl])
      show ?thesis
        using r f mm' bb unfolding step
        by (intro exI [of _ m'] exI [of _ buf']) simp
    next
      case even: False
      have i1: "\<forall>k. 2 * k + 1 < Suc counter \<longrightarrow>
           buf ! k = take 14 (formatted (word_at (mem ?mp1) (2 * k)))"
        using buf_step_even [OF Cons.prems(5), of b] even by simp
      from Cons.IH [OF t1 l1 Cons.prems(3) c1 i1 a1] obtain m' buf'
        where r: "load_loop alloc rest (Suc counter) ?mp1 buf
                    = Some (min (Suc counter + length rest) 32, ?mp1\<lparr>mem := m'\<rparr>, buf')"
          and f: "length m' = 32" "length buf' = 16"
          and mm: "\<forall>i<32. m' ! i = (if Suc counter \<le> i \<and> i < Suc counter + length rest
                                then rest ! (i - Suc counter) else mem ?mp1 ! i)"
          and bb: "\<forall>k. 2 * k + 1 < min (Suc counter + length rest) 32 \<longrightarrow>
                 buf' ! k = take 14 (formatted (word_at m' (2 * k)))"
        by blast
      have par: "(counter + 1) mod 2 \<noteq> 0"
        using even by presburger
      have step: "load_loop alloc (b # rest) counter mp buf
                    = load_loop alloc rest (Suc counter) ?mp1 buf"
        using True par by (simp add: Let_def MEM_BYTE_SIZE_def)
      have mm1: "\<forall>i<32. m' ! i = (if Suc counter \<le> i \<and> i < Suc counter + length rest
                                then rest ! (i - Suc counter) else ?m1 ! i)"
        using mm by simp
      have mm': "\<forall>i<32. m' ! i = (if counter \<le> i \<and> i < counter + length (b # rest)
                           then (b # rest) ! (i - counter) else mem mp ! i)"
        by (rule mem_step [OF mm1 cl])
      show ?thesis
        using r f mm' bb unfolding step
        by (intro exI [of _ m'] exI [of _ buf']) simp
    qed
  qed
qed

lemma newline_not_in_formatted: "CHR 0x0A \<notin> set (formatted w)"
  by (simp add: formatted_def bit_op_text_bits newline_not_in_dec)

lemma newline_not_in_line: "CHR 0x0A \<notin> set (take n (formatted w))"
  using newline_not_in_formatted [of w] set_take_subset [of n "formatted w"] by blast

lemma count_newline_free: "CHR 0x0A \<notin> set l \<Longrightarrow> count_list l (CHR 0x0A) = 0"
  by (simp add: count_list_0_iff)

lemma count_join_lines:
  "\<forall>l\<in>set ls. CHR 0x0A \<notin> set l \<Longrightarrow> count_list (join_lines ls) (CHR 0x0A) = length ls - 1"
proof (induction ls)
  case Nil
  then show ?case by simp
next
  case (Cons x xs)
  then show ?case
    by (cases xs) (simp_all add: join_lines_Cons count_newline_free newline_def)
qed

lemma last_join_lines:
  "ls \<noteq> [] \<Longrightarrow> \<forall>l\<in>set ls. CHR 0x0A \<notin> set l \<and> l \<noteq> [] \<Longrightarrow>
     join_lines ls \<noteq> [] \<and> last (join_lines ls) \<noteq> CHR 0x0A"
proof (induction ls)
  case Nil
  then show ?case by simp
next
  case (Cons x xs)
  show ?case
  proof (cases "xs = []")
    case True
    have "x \<noteq> []" "CHR 0x0A \<notin> set x"
      using Cons.prems by simp_all
    then have "last x \<noteq> CHR 0x0A"
      using last_in_set [of x] by metis
    then show ?thesis
      using True \<open>x \<noteq> []\<close> by simp
  next
    case False
    then have "join_lines xs \<noteq> [] \<and> last (join_lines xs) \<noteq> CHR 0x0A"
      using Cons by simp
    then show ?thesis
      using False by (simp add: join_lines_Cons)
  qed
qed

lemma unat_of_nat_byte: "n < 256 \<Longrightarrow> unat (of_nat n :: byte_t) = n"
  by (simp add: unat_of_nat)

lemma disassemble_result:
  assumes "table_set_up mp" and "length (mem mp) = 32" and "length buf = 16"
    and "15 * (min (length bin_file) 32 div 2) \<le> sizeof_pointer * 16"
  shows "\<exists>m' buf'.
        disassemble_micro_program sizeof_pointer mp bin_file buf
          = Some (SUCCESS,
              mp\<lparr>mem := m', pc := 0, loaded_mem_slots := of_nat (min (length bin_file) 32)\<rparr>,
              join_lines (map (\<lambda>k. dec (2 * k) @ '': '' @ buf' ! k)
                [0..<min (length bin_file) 32 div 2]))
      \<and> length m' = 32 \<and> length buf' = 16
      \<and> (\<forall>i<32. m' ! i = (if i < length bin_file then bin_file ! i else mem mp ! i))
      \<and> (\<forall>k<min (length bin_file) 32 div 2. buf' ! k = take 14 (formatted (word_at m' (2 * k))))"
proof -
  let ?c = "min (length bin_file) 32"
  have i0: "\<forall>k. 2 * k + 1 < 0 \<longrightarrow> buf ! k = take 14 (formatted (word_at (mem mp) (2 * k)))"
    by simp
  have a: "15 * (min (0 + length bin_file) 32 div 2) \<le> sizeof_pointer * 16"
    using assms(4) by simp
  from load_loop_result [OF assms(1,2,3) _ i0 a] obtain m' buf'
    where r: "load_loop (sizeof_pointer * 16) bin_file 0 mp buf
                = Some (?c, mp\<lparr>mem := m'\<rparr>, buf')"
      and f: "length m' = 32" "length buf' = 16"
      and mm: "\<forall>i<32. m' ! i = (if 0 \<le> i \<and> i < 0 + length bin_file
                                then bin_file ! (i - 0) else mem mp ! i)"
      and bb: "\<forall>k. 2 * k + 1 < ?c \<longrightarrow> buf' ! k = take 14 (formatted (word_at m' (2 * k)))"
    by auto
  have u: "unat (of_nat (?c div 2) :: byte_t) = ?c div 2"
    by (rule unat_of_nat_byte) simp
  have w: "write_assembly_file buf' (of_nat (?c div 2))
      = join_lines (map (\<lambda>k. dec (2 * k) @ '': '' @ buf' ! k) [0..<?c div 2])"
    using write_assembly_file_eq [of "of_nat (?c div 2)" buf'] unfolding u by simp
  have n: "sizeof_pointer * (MEM_BYTE_SIZE div WORD_SIZE) = sizeof_pointer * 16"
    by (simp add: MEM_BYTE_SIZE_def WORD_SIZE_def)
  have d: "disassemble_micro_program sizeof_pointer mp bin_file buf
      = Some (SUCCESS, mp\<lparr>mem := m', pc := 0, loaded_mem_slots := of_nat ?c\<rparr>,
          join_lines (map (\<lambda>k. dec (2 * k) @ '': '' @ buf' ! k) [0..<?c div 2]))"
    unfolding disassemble_micro_program_def n r by (simp add: w)
  have k: "\<forall>k<?c div 2. buf' ! k = take 14 (formatted (word_at m' (2 * k)))"
  proof (intro allI impI)
    fix k
    assume "k < ?c div 2"
    then have "2 * k + 1 < ?c" by arith
    then show "buf' ! k = take 14 (formatted (word_at m' (2 * k)))"
      using bb by blast
  qed
  show ?thesis
    using d f mm k by (intro exI [of _ m'] exI [of _ buf']) simp
qed

text \<open>
  A binary file whose lines all fit in the allocation, whatever their text: a line takes
  at most \<^verbatim>\<open>MAX_ASM_LINE_LEN\<close> bytes. With pointers of 8 bytes the allocation has 128
  bytes and these are the files of at most 17 bytes. For a machine with its table set up,
  \<^verbatim>\<open>disassemble_micro_program\<close> then returns \<^verbatim>\<open>SUCCESS\<close>; the loaded size is the length
  of the file and the listing has half as many lines (rounded down). Line \<open>k\<close> is the
  decimal address \<open>2 * k\<close>, a colon and a space, and the line that the disassembler wrote
  for the word at that address, which holds no line break. The lines are joined by single
  line breaks: the listing holds one line break fewer than lines, and it does not end
  with a line break.
\<close>

lemma listing_when_lines_fit:
  assumes "table_set_up mp" and "machine_ok mp" and "length buf = MEM_BYTE_SIZE div WORD_SIZE"
    and "MAX_ASM_LINE_LEN * (min (length bin_file) MEM_BYTE_SIZE div WORD_SIZE)
           \<le> sizeof_pointer * (MEM_BYTE_SIZE div WORD_SIZE)"
  shows "\<exists>mp' listing lines.
        disassemble_micro_program sizeof_pointer mp bin_file buf = Some (SUCCESS, mp', listing)
      \<and> unat (loaded_mem_slots mp') = min (length bin_file) MEM_BYTE_SIZE
      \<and> pc mp' = 0
      \<and> (\<forall>i<unat (loaded_mem_slots mp'). mem mp' ! i = bin_file ! i)
      \<and> length lines = unat (loaded_mem_slots mp') div 2
      \<and> listing = join_lines (map (\<lambda>k. dec (2 * k) @ '': '' @ lines ! k) [0..<length lines])
      \<and> (\<forall>k<length lines. lines ! k = take 14 (formatted (word_at (mem mp') (2 * k)))
                               \<and> CHR 0x0A \<notin> set (lines ! k))
      \<and> count_list listing (CHR 0x0A) = length lines - 1
      \<and> (listing \<noteq> [] \<longrightarrow> last listing \<noteq> CHR 0x0A)"
proof -
  let ?c = "min (length bin_file) 32"
  have lm: "length (mem mp) = 32" and lb: "length buf = 16"
    using assms(2,3) by (simp_all add: machine_ok_def MEM_BYTE_SIZE_def WORD_SIZE_def)
  have fit: "15 * (min (length bin_file) 32 div 2) \<le> sizeof_pointer * 16"
    using assms(4) by (simp add: MAX_ASM_LINE_LEN_def MEM_BYTE_SIZE_def WORD_SIZE_def)
  from disassemble_result [OF assms(1) lm lb fit] obtain m' buf'
    where d: "disassemble_micro_program sizeof_pointer mp bin_file buf
          = Some (SUCCESS, mp\<lparr>mem := m', pc := 0, loaded_mem_slots := of_nat ?c\<rparr>,
              join_lines (map (\<lambda>k. dec (2 * k) @ '': '' @ buf' ! k) [0..<?c div 2]))"
      and f: "length m' = 32" "length buf' = 16"
      and mm: "\<forall>i<32. m' ! i = (if i < length bin_file then bin_file ! i else mem mp ! i)"
      and bb: "\<forall>k<?c div 2. buf' ! k = take 14 (formatted (word_at m' (2 * k)))"
    by blast
  let ?mp' = "mp\<lparr>mem := m', pc := 0, loaded_mem_slots := of_nat ?c\<rparr>"
  let ?lines = "take (?c div 2) buf'"
  let ?f = "\<lambda>k. dec (2 * k) @ '': '' @ buf' ! k"
  let ?ls = "map ?f [0..<?c div 2]"
  have u: "unat (loaded_mem_slots ?mp') = ?c"
    by (simp add: unat_of_nat_byte)
  have c1: "unat (loaded_mem_slots ?mp') = min (length bin_file) MEM_BYTE_SIZE"
    unfolding u by (simp add: MEM_BYTE_SIZE_def)
  have c2: "pc ?mp' = 0"
    by simp
  have c3: "\<forall>i<unat (loaded_mem_slots ?mp'). mem ?mp' ! i = bin_file ! i"
    unfolding u using mm by simp
  have ll: "length ?lines = ?c div 2"
    using f(2) by simp
  have c4: "length ?lines = unat (loaded_mem_slots ?mp') div 2"
    unfolding u by (rule ll)
  have same: "map (\<lambda>k. dec (2 * k) @ '': '' @ ?lines ! k) [0..<length ?lines] = ?ls"
    unfolding ll by (rule map_cong) simp_all
  have c5: "join_lines ?ls
      = join_lines (map (\<lambda>k. dec (2 * k) @ '': '' @ ?lines ! k) [0..<length ?lines])"
    unfolding same ..
  have each: "\<forall>l\<in>set ?ls. CHR 0x0A \<notin> set l \<and> l \<noteq> []"
    using bb by (auto simp: newline_not_in_dec newline_not_in_line)
  then have "count_list (join_lines ?ls) (CHR 0x0A) = length ?ls - 1"
    using count_join_lines [of ?ls] by blast
  then have c7: "count_list (join_lines ?ls) (CHR 0x0A) = length ?lines - 1"
    unfolding ll by simp
  have c8: "join_lines ?ls \<noteq> [] \<longrightarrow> last (join_lines ?ls) \<noteq> CHR 0x0A"
  proof (cases "?ls = []")
    case True
    then show ?thesis by simp
  next
    case False
    from last_join_lines [OF False each] show ?thesis by simp
  qed
  have c6: "\<forall>k<length ?lines. ?lines ! k = take 14 (formatted (word_at (mem ?mp') (2 * k)))
                               \<and> CHR 0x0A \<notin> set (?lines ! k)"
    using bb ll by (simp add: newline_not_in_line)
  show ?thesis
    by (intro exI [of _ ?mp'] exI [of _ "join_lines ?ls"] exI [of _ ?lines] conjI)
       (fact d c1 c2 c3 c4 c5 c6 c7 c8)+
qed

lemma listing_example:
  "\<exists>mp'. disassemble_micro_program 8 (machine_with [] []) [0x02, 0x02, 0xE0, 0x3E] (replicate 16 [])
            = Some (SUCCESS, mp', ''0: LDI R1 1'' @ newline @ ''2: BLT R0 R1 30'')
        \<and> unat (loaded_mem_slots mp') = 4"
proof -
  let ?file = "[0x02, 0x02, 0xE0, 0x3E] :: byte_t list"
  have ok: "machine_ok (machine_with [] [])"
    by (rule machine_with_ok(1)) simp_all
  have lb: "length (replicate 16 ([] :: string)) = MEM_BYTE_SIZE div WORD_SIZE"
    by (simp add: MEM_BYTE_SIZE_def WORD_SIZE_def)
  have fit: "MAX_ASM_LINE_LEN * (min (length ?file) MEM_BYTE_SIZE div WORD_SIZE)
           \<le> 8 * (MEM_BYTE_SIZE div WORD_SIZE)"
    by (simp add: MAX_ASM_LINE_LEN_def MEM_BYTE_SIZE_def WORD_SIZE_def)
  from listing_when_lines_fit [OF machine_with_ok(2) ok lb fit] obtain mp' listing lines
    where d: "disassemble_micro_program 8 (machine_with [] []) ?file (replicate 16 [])
                = Some (SUCCESS, mp', listing)"
      and l: "unat (loaded_mem_slots mp') = min (length ?file) MEM_BYTE_SIZE"
      and m: "\<forall>i<unat (loaded_mem_slots mp'). mem mp' ! i = ?file ! i"
      and n: "length lines = unat (loaded_mem_slots mp') div 2"
      and j: "listing = join_lines (map (\<lambda>k. dec (2 * k) @ '': '' @ lines ! k) [0..<length lines])"
      and k: "\<forall>k<length lines. lines ! k = take 14 (formatted (word_at (mem mp') (2 * k)))
                               \<and> CHR 0x0A \<notin> set (lines ! k)"
    by blast
  have l4: "unat (loaded_mem_slots mp') = 4"
    using l by (simp add: MEM_BYTE_SIZE_def)
  have n2: "length lines = 2"
    using n l4 by simp
  have b: "mem mp' ! 0 = 0x02" "mem mp' ! 1 = 0x02" "mem mp' ! 2 = 0xE0" "mem mp' ! 3 = 0x3E"
    using m l4 by simp_all
  have w: "word_at (mem mp') 0 = 0x0202" "word_at (mem mp') 2 = 0xE03E"
    using b by (simp_all add: word_at_def)
  have f: "formatted 0x0202 = ''LDI R1 1''" "formatted 0xE03E = ''BLT R0 R1 30''"
    by (simp_all add: formatted_def bits_def dec_large dec_small digit_char_def)
  have "lines ! 0 = take 14 (formatted (word_at (mem mp') (2 * 0)))"
    "lines ! 1 = take 14 (formatted (word_at (mem mp') (2 * 1)))"
    using k n2 by simp_all
  then have ls: "lines ! 0 = ''LDI R1 1''" "lines ! 1 = ''BLT R0 R1 30''"
    by (simp_all add: w f)
  have "[0..<length lines] = [0, 1]"
    unfolding n2 by (simp add: upt_conv_Cons)
  then have "listing = ''0: LDI R1 1'' @ newline @ ''2: BLT R0 R1 30''"
    using j ls by (simp add: dec_small digit_char_def)
  then show ?thesis
    using d l4 by blast
qed

text \<open>
  The example machines are the machines that a run starts from: the created machine with
  its instruction set, after \<^verbatim>\<open>disassemble_micro_program\<close> has loaded the program, where
  pointers have 8 bytes and the program is short enough for its lines to fit.
\<close>

lemma loaded_machine:
  assumes "length bin_file \<le> 17"
  shows "map_option (fst \<circ> snd)
           (disassemble_micro_program 8 (create_instruction_set create_microputer) bin_file
              (replicate 16 []))
         = Some (machine_with [] bin_file)"
proof -
  let ?m = "create_instruction_set create_microputer"
  have t: "table_set_up ?m"
    by (simp add: table_set_up_def)
  have lm: "length (mem ?m) = 32"
    by (simp add: create_instruction_set_def create_microputer_def MEM_BYTE_SIZE_def)
  have z: "\<forall>i<32. mem ?m ! i = 0"
    by (simp add: create_instruction_set_def create_microputer_def MEM_BYTE_SIZE_def)
  have fit: "15 * (min (length bin_file) 32 div 2) \<le> 8 * 16"
    using assms by simp
  from disassemble_result [OF t lm _ fit, of "replicate 16 []"] obtain m' listing
    where d: "disassemble_micro_program 8 ?m bin_file (replicate 16 [])
          = Some (SUCCESS,
              ?m\<lparr>mem := m', pc := 0, loaded_mem_slots := of_nat (min (length bin_file) 32)\<rparr>,
              listing)"
      and f: "length m' = 32"
      and mm: "\<forall>i<32. m' ! i = (if i < length bin_file then bin_file ! i else mem ?m ! i)"
    by auto
  have "m' = bin_file @ replicate (32 - length bin_file) 0"
  proof (rule nth_equalityI)
    show "length m' = length (bin_file @ replicate (32 - length bin_file) 0)"
      using f assms by simp
  next
    fix i
    assume "i < length m'"
    then have i: "i < 32" using f by simp
    then show "m' ! i = (bin_file @ replicate (32 - length bin_file) 0) ! i"
      using mm z by (simp add: nth_append)
  qed
  then have "?m\<lparr>mem := m', pc := 0, loaded_mem_slots := of_nat (min (length bin_file) 32)\<rparr>
      = machine_with [] bin_file"
    using assms
    by (simp add: machine_with_def create_instruction_set_def create_microputer_def
        NUM_REGISTERS_def MEM_BYTE_SIZE_def min_def)
  then show ?thesis
    by (simp add: d)
qed

lemma word_at_append: "p + 1 < length xs \<Longrightarrow> word_at (xs @ ys) p = word_at xs p"
  by (simp add: word_at_def nth_append)

text \<open>
  The same with the listing, for any size of a pointer that lets the lines fit: the lines
  are those of the words of the program.
\<close>

lemma loaded_listing:
  assumes "length bin_file \<le> 32" and "15 * (length bin_file div 2) \<le> sizeof_pointer * 16"
  shows "\<exists>lines.
        disassemble_micro_program sizeof_pointer (create_instruction_set create_microputer)
            bin_file (replicate 16 [])
          = Some (SUCCESS, machine_with [] bin_file,
              join_lines (map (\<lambda>j. dec (2 * j) @ '': '' @ lines ! j) [0..<length lines]))
      \<and> length lines = length bin_file div 2
      \<and> (\<forall>j<length lines. lines ! j = take 14 (formatted (word_at bin_file (2 * j))))"
proof -
  let ?m = "create_instruction_set create_microputer"
  let ?n = "length bin_file div 2"
  have t: "table_set_up ?m"
    by (simp add: table_set_up_def)
  have lm: "length (mem ?m) = 32"
    by (simp add: create_instruction_set_def create_microputer_def MEM_BYTE_SIZE_def)
  have z: "\<forall>i<32. mem ?m ! i = 0"
    by (simp add: create_instruction_set_def create_microputer_def MEM_BYTE_SIZE_def)
  have c: "min (length bin_file) 32 = length bin_file"
    using assms(1) by simp
  have fit: "15 * (min (length bin_file) 32 div 2) \<le> sizeof_pointer * 16"
    unfolding c by (rule assms(2))
  from disassemble_result [OF t lm _ fit, of "replicate 16 []"] obtain m' buf'
    where d: "disassemble_micro_program sizeof_pointer ?m bin_file (replicate 16 [])
          = Some (SUCCESS,
              ?m\<lparr>mem := m', pc := 0, loaded_mem_slots := of_nat (length bin_file)\<rparr>,
              join_lines (map (\<lambda>k. dec (2 * k) @ '': '' @ buf' ! k) [0..<?n]))"
      and f: "length m' = 32" "length buf' = 16"
      and mm: "\<forall>i<32. m' ! i = (if i < length bin_file then bin_file ! i else mem ?m ! i)"
      and bb: "\<forall>k<?n. buf' ! k = take 14 (formatted (word_at m' (2 * k)))"
    unfolding c by auto
  have m': "m' = bin_file @ replicate (32 - length bin_file) 0"
  proof (rule nth_equalityI)
    show "length m' = length (bin_file @ replicate (32 - length bin_file) 0)"
      using f assms by simp
  next
    fix i
    assume "i < length m'"
    then have i: "i < 32" using f by simp
    then show "m' ! i = (bin_file @ replicate (32 - length bin_file) 0) ! i"
      using mm z by (simp add: nth_append)
  qed
  then have e: "?m\<lparr>mem := m', pc := 0, loaded_mem_slots := of_nat (length bin_file)\<rparr>
      = machine_with [] bin_file"
    using assms
    by (simp add: machine_with_def create_instruction_set_def create_microputer_def
        NUM_REGISTERS_def MEM_BYTE_SIZE_def)
  let ?lines = "take ?n buf'"
  have ll: "length ?lines = ?n"
    using f(2) assms(1) by simp
  have same: "map (\<lambda>j. dec (2 * j) @ '': '' @ ?lines ! j) [0..<length ?lines]
      = map (\<lambda>k. dec (2 * k) @ '': '' @ buf' ! k) [0..<?n]"
    unfolding ll by (rule map_cong) simp_all
  have each: "\<forall>j<length ?lines. ?lines ! j = take 14 (formatted (word_at bin_file (2 * j)))"
  proof (intro allI impI)
    fix j
    assume "j < length ?lines"
    then have j: "j < ?n" unfolding ll .
    then have "2 * j + 1 < length bin_file" by arith
    then have "word_at m' (2 * j) = word_at bin_file (2 * j)"
      unfolding m' by (rule word_at_append)
    then show "?lines ! j = take 14 (formatted (word_at bin_file (2 * j)))"
      using bb j by simp
  qed
  show ?thesis
    using d ll each unfolding e same [symmetric]
    by (intro exI [of _ ?lines]) simp
qed

section \<open>The allocation of the line buffer\<close>

text \<open>
  With pointers of at most 8 bytes the allocation has at most 128 bytes, and line 9 would
  start at byte 135: no binary file of 20 bytes or more is disassembled with a defined
  result, whatever its words are.
\<close>

lemma load_loop_overflow:
  assumes "counter \<le> 19" and "20 \<le> counter + length bs" and "alloc \<le> 135"
  shows "load_loop alloc bs counter mp buf = None"
  using assms
proof (induction bs arbitrary: counter mp buf)
  case Nil
  then show ?case by simp
next
  case (Cons b rest)
  have lt: "counter < MEM_BYTE_SIZE"
    using Cons.prems(1) by (simp add: MEM_BYTE_SIZE_def)
  show ?case
  proof (cases "counter = 19")
    case True
    have "\<not> MAX_ASM_LINE_LEN * (19 div 2) + n + 1 \<le> alloc" for n
      using Cons.prems(3) by (simp add: MAX_ASM_LINE_LEN_def)
    then show ?thesis
      unfolding True by (simp add: Let_def MEM_BYTE_SIZE_def split: option.split)
  next
    case False
    then have c: "Suc counter \<le> 19" "20 \<le> Suc counter + length rest"
      using Cons.prems(1,2) by simp_all
    have ih: "load_loop alloc rest (Suc counter) m l = None" for m l
      by (rule Cons.IH [OF c Cons.prems(3)])
    show ?thesis
      using lt by (simp add: Let_def ih split: option.split)
  qed
qed

lemma disassemble_overflow:
  assumes "20 \<le> length bin_file" and "sizeof_pointer \<le> 8"
  shows "disassemble_micro_program sizeof_pointer mp bin_file buf = None"
proof -
  have "sizeof_pointer * (MEM_BYTE_SIZE div WORD_SIZE) \<le> 135"
    using assms(2) by (simp add: MEM_BYTE_SIZE_def WORD_SIZE_def)
  then have "load_loop (sizeof_pointer * (MEM_BYTE_SIZE div WORD_SIZE)) bin_file 0 mp buf = None"
    using assms(1) by (intro load_loop_overflow) simp_all
  then show ?thesis
    by (simp add: disassemble_micro_program_def)
qed

text \<open>
  Claim C9. The listing of a machine with loaded size \<open>L\<close> is to have \<open>L / 2\<close> lines, line
  \<open>k\<close> prefixed with the decimal address \<open>2 * k\<close>, a colon and a space, the lines separated
  by single line breaks and no line break after the last one. Lemma
  \<open>listing_when_lines_fit\<close> proves this of every file whose lines fit in the allocation
  of the line buffer; the code breaks it for longer files. The buffer is declared with
  lines of \<^verbatim>\<open>MAX_ASM_LINE_LEN\<close> = 15 bytes and allocated with the size of a pointer for
  each of its 16 lines: with pointers of 8 bytes, 128 bytes in place of 240. For a binary
  file of 20 bytes, ten words \<^verbatim>\<open>LDI R0 0\<close>, the ninth line starts at byte 120 and its
  terminator is byte 128, and the tenth line starts at byte 135: the disassembler stores
  outside the allocation, the run has no defined result, and no listing of ten lines is
  written. A file of 16 bytes is loaded and listed.
\<close>

theorem ten_lines_overflow_the_line_buffer:
  "length (replicate 20 (0 :: byte_t)) div 2 = 10
   \<and> disassemble_micro_program 8 (create_instruction_set create_microputer)
        (replicate 20 0) (replicate 16 []) = None
   \<and> map_option fst (disassemble_micro_program 8 (create_instruction_set create_microputer)
        (replicate 16 0) (replicate 16 [])) = Some SUCCESS"
proof -
  let ?m = "create_instruction_set create_microputer"
  have t: "table_set_up ?m"
    by (simp add: table_set_up_def)
  have lm: "length (mem ?m) = 32"
    by (simp add: create_instruction_set_def create_microputer_def MEM_BYTE_SIZE_def)
  have fit: "15 * (min (length (replicate 16 (0 :: byte_t))) 32 div 2) \<le> 8 * 16"
    by simp
  from disassemble_result [OF t lm _ fit, of "replicate 16 []"]
  have ok: "map_option fst (disassemble_micro_program 8 ?m (replicate 16 0) (replicate 16 []))
      = Some SUCCESS"
    by auto
  have bad: "disassemble_micro_program 8 ?m (replicate 20 0) (replicate 16 []) = None"
    by (rule disassemble_overflow) simp_all
  show ?thesis
    using ok bad by simp
qed

section \<open>ADD, AND, OR and XOR\<close>

text \<open>
  Claim C3. An instruction word whose opcode (bits 15 to 13) is 1, 2, 3 or 4 is dispatched
  by the instruction table to a handler that returns \<^verbatim>\<open>SUCCESS\<close>, leaves the console
  alone and changes the machine in its registers only: the register named by bits 4 to 1
  receives the sum (opcode 1), the bitwise and (2), or (3) or exclusive or (4) of the
  registers named by bits 12 to 9 and bits 8 to 5. The sum is taken modulo 256, and every
  other register keeps its value. In the example the registers 0 and 1 hold 250 and 10,
  and \<^verbatim>\<open>ADD\<close> leaves 4 in register 2.
\<close>

theorem bit_op_through_table:
  assumes "machine_ok mp" and "table_set_up mp"
    and "1 \<le> bits (ir mp) 15 13" and "bits (ir mp) 15 13 \<le> 4"
  shows "\<exists>mp'. call_handler (handler (instr_set mp ! unat (execute_op_code (ir mp)))) mp io
              = Some (SUCCESS, mp', io)
          \<and> mp' = mp\<lparr>reg := reg mp'\<rparr>
          \<and> reg mp' ! bits (ir mp) 4 1 =
              (let a = reg mp ! bits (ir mp) 12 9; b = reg mp ! bits (ir mp) 8 5
               in if bits (ir mp) 15 13 = 1 then a + b
                  else if bits (ir mp) 15 13 = 2 then a AND b
                  else if bits (ir mp) 15 13 = 3 then a OR b
                  else a XOR b)
          \<and> (bits (ir mp) 15 13 = 1 \<longrightarrow>
                unat (reg mp' ! bits (ir mp) 4 1)
                  = (unat (reg mp ! bits (ir mp) 12 9) + unat (reg mp ! bits (ir mp) 8 5)) mod 256)
          \<and> (\<forall>j. j \<noteq> bits (ir mp) 4 1 \<longrightarrow> reg mp' ! j = reg mp ! j)"
proof -
  have k: "bits (ir mp) 4 1 < length (reg mp)"
    using assms(1) bits_lt [of "ir mp" 4 1] by (simp add: machine_ok_def NUM_REGISTERS_def)
  have h: "handler (instr_set mp ! unat (execute_op_code (ir mp))) = bit_op_handler_ptr"
    using assms(3,4) by (simp add: table_handler [OF assms(2)])
  have "bits (ir mp) 15 13 \<in> {1, 2, 3, 4}"
    using assms(3,4) by auto
  then show ?thesis
    using k by (auto simp: h bit_op_handler_eq Let_def unat_word_ariths)
qed

theorem bit_op_through_table_witness:
  "\<exists>mp'. call_handler (handler (instr_set (machine_with [250, 10] []\<lparr>ir := 0x2024\<rparr>)
              ! unat (execute_op_code 0x2024))) (machine_with [250, 10] []\<lparr>ir := 0x2024\<rparr>) quiet
            = Some (SUCCESS, mp', quiet)
        \<and> unat (reg mp' ! 2) = 4 \<and> reg mp' ! 0 = 250 \<and> reg mp' ! 1 = 10"
proof -
  let ?m = "machine_with [250, 10] []\<lparr>ir := 0x2024\<rparr>"
  have ok: "machine_ok ?m" "table_set_up ?m"
    using machine_with_ok [of "[250, 10]" "[]"]
    by (simp_all add: machine_ok_def table_set_up_def)
  have op: "1 \<le> bits (ir ?m) 15 13" "bits (ir ?m) 15 13 \<le> 4"
    by (simp_all add: bits_def)
  from bit_op_through_table [OF ok op, of quiet] obtain mp'
    where c: "call_handler (handler (instr_set ?m ! unat (execute_op_code (ir ?m)))) ?m quiet
              = Some (SUCCESS, mp', quiet)"
      and v: "bits (ir ?m) 15 13 = 1 \<longrightarrow> unat (reg mp' ! bits (ir ?m) 4 1)
                 = (unat (reg ?m ! bits (ir ?m) 12 9) + unat (reg ?m ! bits (ir ?m) 8 5)) mod 256"
      and r: "\<forall>j. j \<noteq> bits (ir ?m) 4 1 \<longrightarrow> reg mp' ! j = reg ?m ! j"
    by blast
  have "unat (reg mp' ! 2) = 4"
    using v by (simp add: bits_def machine_with_simps)
  moreover have "reg mp' ! 0 = 250" "reg mp' ! 1 = 10"
    using r by (simp_all add: bits_def machine_with_simps)
  ultimately show ?thesis
    using c by auto
qed

section \<open>BLT\<close>

lemma unat_of_nat_bits_4_0: "unat (of_nat (bits w 4 0) :: uint16_t) = bits w 4 0"
  using bits_lt [of w 4 0] by (simp add: unat_of_nat)

lemma execute_step_blt:
  assumes "table_set_up mp" and "unat (pc mp) + 1 < MEM_BYTE_SIZE"
    and "bits (ir (fetched mp)) 15 13 = 7"
  shows "execute_step mp io =
     (if reg mp ! bits (ir (fetched mp)) 12 9 < reg mp ! bits (ir (fetched mp)) 8 5
      then (if odd (bits (ir (fetched mp)) 4 0)
            then Some (ERROR, fetched mp,
                   io\<lparr>stdout := stdout io @ '' # [ERROR: Address must be on word boundary!] #''
                         @ tab @ ''# [ERROR: '' @ dec 7 @ '' handler returned error code!] #'' @ newline\<rparr>)
            else Some (SUCCESS, (fetched mp)\<lparr>pc := of_nat (bits (ir (fetched mp)) 4 0)\<rparr>, io))
      else Some (SUCCESS, fetched mp, io))"
  using assms(3)
  by (simp add: execute_step_eq [OF assms(1,2)] blt_handler_eq fetched_simps)

lemma fetched_example:
  "length program \<le> 32 \<Longrightarrow> 2 \<le> length program \<Longrightarrow>
   ir (fetched (machine_with regs program)) = word_at program 0"
  by (cases program; cases "tl program") (auto simp add: fetched_simps machine_with_simps word_at_def)

text \<open>
  Claim C4. A \<^verbatim>\<open>BLT\<close> word (opcode 7) whose address field (bits 4 to 0) is even: when the
  register named by bits 12 to 9 is below the register named by bits 8 to 5, as unsigned
  bytes, the handler returns \<^verbatim>\<open>SUCCESS\<close> and the program counter is the address field;
  otherwise the handler returns \<^verbatim>\<open>SUCCESS\<close> and changes nothing, so the program counter
  stays 2 beyond the address of the word. In the example the registers hold 1 and 5 and
  the branch from 0 to 4 leaves the program counter at 4; with 5 and 1 it is left at 2.
\<close>

theorem blt_even_address:
  assumes "table_set_up mp" and "unat (pc mp) + 1 < MEM_BYTE_SIZE"
    and "bits (ir (fetched mp)) 15 13 = 7"
    and "even (bits (ir (fetched mp)) 4 0)"
  shows "(reg mp ! bits (ir (fetched mp)) 12 9 < reg mp ! bits (ir (fetched mp)) 8 5 \<longrightarrow>
            blt_handler (fetched mp) io
              = (SUCCESS, (fetched mp)\<lparr>pc := of_nat (bits (ir (fetched mp)) 4 0)\<rparr>, io)
          \<and> execute_step mp io
              = Some (SUCCESS, (fetched mp)\<lparr>pc := of_nat (bits (ir (fetched mp)) 4 0)\<rparr>, io)
          \<and> unat (pc ((fetched mp)\<lparr>pc := of_nat (bits (ir (fetched mp)) 4 0)\<rparr>))
              = bits (ir (fetched mp)) 4 0)
       \<and> (\<not> reg mp ! bits (ir (fetched mp)) 12 9 < reg mp ! bits (ir (fetched mp)) 8 5 \<longrightarrow>
            blt_handler (fetched mp) io = (SUCCESS, fetched mp, io)
          \<and> execute_step mp io = Some (SUCCESS, fetched mp, io)
          \<and> pc (fetched mp) = pc mp + 2)"
  using assms(4)
  by (simp add: execute_step_blt [OF assms(1-3)] blt_handler_eq fetched_simps unat_of_nat_bits_4_0)

theorem blt_even_address_witness:
  "execute_step (machine_with [1, 5] [0xE0, 0x24]) quiet
     = Some (SUCCESS, (fetched (machine_with [1, 5] [0xE0, 0x24]))\<lparr>pc := 4\<rparr>, quiet)
   \<and> execute_step (machine_with [5, 1] [0xE0, 0x24]) quiet
     = Some (SUCCESS, fetched (machine_with [5, 1] [0xE0, 0x24]), quiet)
   \<and> pc (fetched (machine_with [5, 1] [0xE0, 0x24])) = 2"
proof -
  let ?a = "machine_with [1, 5] [0xE0, 0x24]" and ?b = "machine_with [5, 1] [0xE0, 0x24]"
  have w: "ir (fetched ?a) = 0xE024" "ir (fetched ?b) = 0xE024"
    by (simp_all add: fetched_example word_at_def)
  have pcs: "unat (pc ?a) + 1 < MEM_BYTE_SIZE" "unat (pc ?b) + 1 < MEM_BYTE_SIZE"
    by (simp_all add: machine_with_simps MEM_BYTE_SIZE_def)
  have op: "bits (ir (fetched ?a)) 15 13 = 7" "bits (ir (fetched ?b)) 15 13 = 7"
    and ev: "even (bits (ir (fetched ?a)) 4 0)" "even (bits (ir (fetched ?b)) 4 0)"
    unfolding w by (simp_all add: bits_def)
  show ?thesis
    using blt_even_address [OF machine_with_ok(2) pcs(1) op(1) ev(1), of quiet]
      blt_even_address [OF machine_with_ok(2) pcs(2) op(2) ev(2), of quiet]
    unfolding w by (simp add: bits_def machine_with_simps fetched_simps)
qed


text \<open>
  Claim C1, as the code has it. The handler tests the address only when it is about to
  branch. A \<^verbatim>\<open>BLT\<close> word whose address field is odd: when the first register is below
  the second, the handler prints the word-boundary message and returns \<^verbatim>\<open>ERROR\<close>
  with the machine as it received it, the program counter 2 beyond the address of the
  word, and the run ends with \<^verbatim>\<open>ERROR\<close>; when the first register is not below the
  second, the handler returns \<^verbatim>\<open>SUCCESS\<close> and changes nothing.
\<close>

theorem blt_odd_address:
  assumes "table_set_up mp" and "unat (pc mp) + 1 < MEM_BYTE_SIZE"
    and "bits (ir (fetched mp)) 15 13 = 7"
    and "odd (bits (ir (fetched mp)) 4 0)"
  shows "(reg mp ! bits (ir (fetched mp)) 12 9 < reg mp ! bits (ir (fetched mp)) 8 5 \<longrightarrow>
            blt_handler (fetched mp) io
              = (ERROR, fetched mp,
                 io\<lparr>stdout := stdout io @ '' # [ERROR: Address must be on word boundary!] #''\<rparr>)
          \<and> execute_step mp io
              = Some (ERROR, fetched mp,
                  io\<lparr>stdout := stdout io @ '' # [ERROR: Address must be on word boundary!] #''
                     @ tab @ ''# [ERROR: '' @ dec 7 @ '' handler returned error code!] #'' @ newline\<rparr>)
          \<and> execute_micro_program (Suc n) mp io
              = Returns ERROR (fetched mp)
                  (io\<lparr>stdout := stdout io @ '' # [ERROR: Address must be on word boundary!] #''
                     @ tab @ ''# [ERROR: '' @ dec 7 @ '' handler returned error code!] #'' @ newline\<rparr>))
       \<and> (\<not> reg mp ! bits (ir (fetched mp)) 12 9 < reg mp ! bits (ir (fetched mp)) 8 5 \<longrightarrow>
            blt_handler (fetched mp) io = (SUCCESS, fetched mp, io)
          \<and> execute_step mp io = Some (SUCCESS, fetched mp, io))
       \<and> pc (fetched mp) = pc mp + 2"
  using assms(4)
  by (simp add: execute_step_blt [OF assms(1-3)] blt_handler_eq fetched_simps)

theorem blt_odd_address_witness:
  "execute_step (machine_with [1, 5] [0xE0, 0x21]) quiet
     = Some (ERROR, fetched (machine_with [1, 5] [0xE0, 0x21]),
         quiet\<lparr>stdout := '' # [ERROR: Address must be on word boundary!] #''
            @ tab @ ''# [ERROR: 7 handler returned error code!] #'' @ newline\<rparr>)
   \<and> pc (fetched (machine_with [1, 5] [0xE0, 0x21])) = 2"
proof -
  let ?a = "machine_with [1, 5] [0xE0, 0x21]"
  have w: "ir (fetched ?a) = 0xE021"
    by (simp add: fetched_example word_at_def)
  have pcs: "unat (pc ?a) + 1 < MEM_BYTE_SIZE"
    by (simp add: machine_with_simps MEM_BYTE_SIZE_def)
  have op: "bits (ir (fetched ?a)) 15 13 = 7" and od: "odd (bits (ir (fetched ?a)) 4 0)"
    unfolding w by (simp_all add: bits_def)
  show ?thesis
    using blt_odd_address [OF machine_with_ok(2) pcs op od, of quiet]
    unfolding w by (simp add: bits_def machine_with_simps fetched_simps quiet_def dec.simps digit_char_def)
qed

text \<open>
  The claim C1 as stated fails for the program of the one word \<^verbatim>\<open>BLT R0 R0 1\<close>: the
  address field is odd, register 0 is not below itself, and the handler and the run
  return \<^verbatim>\<open>SUCCESS\<close>.
\<close>

theorem blt_odd_address_not_taken_succeeds:
  "map_option (fst \<circ> snd)
     (disassemble_micro_program 8 (create_instruction_set create_microputer) [0xE0, 0x01]
        (replicate 16 []))
     = Some (machine_with [] [0xE0, 0x01])
   \<and> bits (word_at [0xE0, 0x01] 0) 15 13 = 7
   \<and> odd (bits (word_at [0xE0, 0x01] 0) 4 0)
   \<and> ir (fetched (machine_with [] [0xE0, 0x01])) = word_at [0xE0, 0x01] 0
   \<and> blt_handler (fetched (machine_with [] [0xE0, 0x01])) quiet
        = (SUCCESS, fetched (machine_with [] [0xE0, 0x01]), quiet)
   \<and> execute_micro_program 1 (machine_with [] [0xE0, 0x01]) quiet
        = Returns SUCCESS (fetched (machine_with [] [0xE0, 0x01])) quiet"
proof -
  have ld: "map_option (fst \<circ> snd)
     (disassemble_micro_program 8 (create_instruction_set create_microputer) [0xE0, 0x01]
        (replicate 16 []))
     = Some (machine_with [] [0xE0, 0x01])"
    by (rule loaded_machine) simp
  have rest: "bits (word_at [0xE0, 0x01] 0) 15 13 = 7
   \<and> odd (bits (word_at [0xE0, 0x01] 0) 4 0)
   \<and> ir (fetched (machine_with [] [0xE0, 0x01])) = word_at [0xE0, 0x01] 0
   \<and> blt_handler (fetched (machine_with [] [0xE0, 0x01])) quiet
        = (SUCCESS, fetched (machine_with [] [0xE0, 0x01]), quiet)
   \<and> execute_micro_program 1 (machine_with [] [0xE0, 0x01]) quiet
        = Returns SUCCESS (fetched (machine_with [] [0xE0, 0x01])) quiet"
  proof -
    let ?a = "machine_with [] [0xE0, 0x01]"
    have w: "ir (fetched ?a) = 0xE001" "word_at [0xE0, 0x01] 0 = 0xE001"
      by (simp_all add: fetched_example word_at_def)
    have pcs: "unat (pc ?a) + 1 < MEM_BYTE_SIZE"
      by (simp add: machine_with_simps MEM_BYTE_SIZE_def)
    have op: "bits (ir (fetched ?a)) 15 13 = 7"
      unfolding w by (simp add: bits_def)
    have step: "execute_step ?a quiet = Some (SUCCESS, fetched ?a, quiet)"
      unfolding execute_step_blt [OF machine_with_ok(2) pcs op] w
      by (simp add: bits_def machine_with_simps fetched_simps)
    have run: "execute_micro_program 1 ?a quiet = Returns SUCCESS (fetched ?a) quiet"
      unfolding One_nat_def execute_micro_program.simps step
      by (simp add: fetched_simps machine_with_simps)
    show ?thesis
      unfolding w using run
      by (simp add: bits_def blt_handler_eq w machine_with_simps fetched_simps)
  qed
  show ?thesis
    by (rule conjI [OF ld rest])
qed

section \<open>What one iteration of the interpreter changes\<close>

lemma fetch_Some:
  assumes "fetch mp = Some f"
  shows "unat (pc mp) + 1 < MEM_BYTE_SIZE \<and> f = fetched mp"
proof -
  have a: "unat (pc mp) < MEM_BYTE_SIZE" and b: "unat (pc mp + 1) < MEM_BYTE_SIZE"
    using assms by (auto simp: fetch_def Let_def split: if_splits)
  have "unat (pc mp + 1) = unat (pc mp) + 1"
    using a by (simp add: MEM_BYTE_SIZE_def unat_word_ariths)
  then have "unat (pc mp) + 1 < MEM_BYTE_SIZE"
    using b by simp
  then show ?thesis
    using assms fetch_fetched [of mp] by simp
qed

lemma call_handler_frame:
  assumes "call_handler h mp io = Some (rc, mp', io')"
  shows "mem mp' = mem mp \<and> loaded_mem_slots mp' = loaded_mem_slots mp
       \<and> instr_set mp' = instr_set mp \<and> ir mp' = ir mp
       \<and> length (reg mp') = length (reg mp)
       \<and> (h = ldi_handler_ptr \<or> h = rdd_handler_ptr \<longrightarrow>
            (\<forall>j. j \<noteq> bits (ir mp) 12 9 \<longrightarrow> reg mp' ! j = reg mp ! j))
       \<and> (h = bit_op_handler_ptr \<longrightarrow>
            (\<forall>j. j \<noteq> bits (ir mp) 4 1 \<longrightarrow> reg mp' ! j = reg mp ! j))
       \<and> (h = prt_handler_ptr \<or> h = blt_handler_ptr \<longrightarrow> reg mp' = reg mp)
       \<and> (h \<noteq> blt_handler_ptr \<longrightarrow> pc mp' = pc mp)
       \<and> (h = blt_handler_ptr \<longrightarrow>
            pc mp' = pc mp \<or> even (bits (ir mp) 4 0) \<and> pc mp' = of_nat (bits (ir mp) 4 0))"
proof (cases h)
  case null_handler
  then show ?thesis using assms by simp
next
  case ldi_handler_ptr
  then show ?thesis using assms by (auto simp: ldi_handler_eq)
next
  case bit_op_handler_ptr
  then show ?thesis using assms by (auto simp: bit_op_handler_eq Let_def split: if_splits)
next
  case prt_handler_ptr
  then show ?thesis using assms by (auto simp: prt_handler_eq)
next
  case rdd_handler_ptr
  then show ?thesis using assms rdd_handler_reg [of mp io rc mp' io'] by auto
next
  case blt_handler_ptr
  then show ?thesis using assms by (auto simp: blt_handler_eq split: if_splits)
qed

lemma execute_step_Some:
  assumes "execute_step mp io = Some (rc, mp', io')"
  shows "unat (pc mp) + 1 < MEM_BYTE_SIZE
       \<and> (\<exists>rc0 io0. call_handler (handler (instr_set mp ! unat (execute_op_code (ir (fetched mp)))))
                       (fetched mp) io = Some (rc0, mp', io0)
                     \<and> (rc = SUCCESS \<longrightarrow> rc0 = SUCCESS \<and> io0 = io'))"
proof -
  obtain f where f: "fetch mp = Some f"
    using assms by (auto simp: execute_step_def split: option.splits)
  then have b: "unat (pc mp) + 1 < MEM_BYTE_SIZE" and ff: "f = fetched mp"
    using fetch_Some by blast+
  show ?thesis
    using assms b
    by (auto simp: execute_step_def f ff Let_def fetched_simps split: option.splits if_splits)
qed


lemma execute_step_frame:
  assumes "execute_step mp io = Some (rc, mp', io')"
  shows "mem mp' = mem mp \<and> loaded_mem_slots mp' = loaded_mem_slots mp
       \<and> instr_set mp' = instr_set mp \<and> ir mp' = ir (fetched mp)
       \<and> length (reg mp') = length (reg mp)"
proof -
  from execute_step_Some [OF assms] obtain rc0 io0
    where "call_handler (handler (instr_set mp ! unat (execute_op_code (ir (fetched mp)))))
             (fetched mp) io = Some (rc0, mp', io0)"
    by blast
  from call_handler_frame [OF this] show ?thesis
    by (simp add: fetched_simps)
qed

lemma execute_micro_program_frame:
  "execute_micro_program n mp io = Returns rc mp' io' \<Longrightarrow>
     mem mp' = mem mp \<and> loaded_mem_slots mp' = loaded_mem_slots mp \<and> instr_set mp' = instr_set mp
     \<and> length (reg mp') = length (reg mp)"
proof (induction n arbitrary: mp io)
  case 0
  then show ?case by simp
next
  case (Suc n)
  from Suc.prems obtain rc1 mp1 io1 where s: "execute_step mp io = Some (rc1, mp1, io1)"
    by (auto split: option.splits)
  note f = execute_step_frame [OF s]
  show ?case
  proof (cases "rc1 = SUCCESS \<and> uint (pc mp1) < uint (loaded_mem_slots mp1)")
    case True
    then have "execute_micro_program n mp1 io1 = Returns rc mp' io'"
      using Suc.prems s by simp
    from Suc.IH [OF this] f show ?thesis by simp
  next
    case False
    then have "mp' = mp1"
      using Suc.prems s by (auto split: if_splits)
    then show ?thesis using f by simp
  qed
qed

lemma unat_byte_lt: "unat (b :: byte_t) < 256"
  using unsigned_less [of b, where 'a=nat] by simp

lemma unat_of_nat16: "x < 65536 \<Longrightarrow> unat (of_nat x :: uint16_t) = x"
  by (simp add: unat_of_nat)

lemma unat_word_at: "unat (word_at m p) = 256 * unat (m ! p) + unat (m ! (p + 1))"
proof -
  have "256 * unat (m ! p) + unat (m ! (p + 1)) < 65536"
    using unat_byte_lt [of "m ! p"] unat_byte_lt [of "m ! (p + 1)"] by arith
  then show ?thesis
    unfolding word_at_def by (rule unat_of_nat16)
qed

lemma call_handler_table:
  assumes "table_set_up mp"
  shows "\<exists>rc mp' io0. call_handler (handler (instr_set mp ! unat (execute_op_code w))) m io
            = Some (rc, mp', io0)"
proof -
  have "handler (instr_set mp ! unat (execute_op_code w)) \<noteq> null_handler"
    by (simp add: table_handler [OF assms])
  then show ?thesis
    by (cases "handler (instr_set mp ! unat (execute_op_code w))") (auto intro: prod_cases3)
qed

text \<open>
  Claim C8. A handler, one iteration of the interpreter and a whole run leave the memory
  array and the loaded size as they were. A handler changes at most one register: the
  one named by bits 12 to 9 for \<^verbatim>\<open>LDI\<close> and \<^verbatim>\<open>RDD\<close>, the one named by bits 4 to 1
  for \<^verbatim>\<open>ADD\<close>, \<^verbatim>\<open>AND\<close>, \<^verbatim>\<open>OR\<close> and \<^verbatim>\<open>XOR\<close>; \<^verbatim>\<open>PRT\<close> and \<^verbatim>\<open>BLT\<close> change no
  register.
\<close>

theorem handlers_frame:
  "(call_handler h mp io = Some (rc, mp', io') \<longrightarrow>
       mem mp' = mem mp \<and> loaded_mem_slots mp' = loaded_mem_slots mp
       \<and> length (reg mp') = length (reg mp)
       \<and> (\<exists>k. \<forall>j. j \<noteq> k \<longrightarrow> reg mp' ! j = reg mp ! j)
       \<and> (h = ldi_handler_ptr \<or> h = rdd_handler_ptr \<longrightarrow>
            (\<forall>j. j \<noteq> bits (ir mp) 12 9 \<longrightarrow> reg mp' ! j = reg mp ! j))
       \<and> (h = bit_op_handler_ptr \<longrightarrow>
            (\<forall>j. j \<noteq> bits (ir mp) 4 1 \<longrightarrow> reg mp' ! j = reg mp ! j))
       \<and> (h = prt_handler_ptr \<or> h = blt_handler_ptr \<longrightarrow> reg mp' = reg mp))
   \<and> (execute_step mp io = Some (rc, mp', io') \<longrightarrow>
       mem mp' = mem mp \<and> loaded_mem_slots mp' = loaded_mem_slots mp
       \<and> length (reg mp') = length (reg mp)
       \<and> (\<exists>k. \<forall>j. j \<noteq> k \<longrightarrow> reg mp' ! j = reg mp ! j))
   \<and> (execute_micro_program n mp io = Returns rc mp' io' \<longrightarrow>
       mem mp' = mem mp \<and> loaded_mem_slots mp' = loaded_mem_slots mp)"
proof -
  have one: "\<exists>k. \<forall>j. j \<noteq> k \<longrightarrow> reg m' ! j = reg m ! j"
    if c: "call_handler g m i = Some (r, m', i')" for g m i r m' i'
  proof (cases g)
    case null_handler
    then show ?thesis using c by simp
  next
    case ldi_handler_ptr
    then show ?thesis using call_handler_frame [OF c] by blast
  next
    case bit_op_handler_ptr
    then show ?thesis using call_handler_frame [OF c] by blast
  next
    case prt_handler_ptr
    then show ?thesis using call_handler_frame [OF c] by simp
  next
    case rdd_handler_ptr
    then show ?thesis using call_handler_frame [OF c] by blast
  next
    case blt_handler_ptr
    then show ?thesis using call_handler_frame [OF c] by simp
  qed
  have a: "call_handler h mp io = Some (rc, mp', io') \<longrightarrow>
       mem mp' = mem mp \<and> loaded_mem_slots mp' = loaded_mem_slots mp
       \<and> length (reg mp') = length (reg mp)
       \<and> (\<exists>k. \<forall>j. j \<noteq> k \<longrightarrow> reg mp' ! j = reg mp ! j)
       \<and> (h = ldi_handler_ptr \<or> h = rdd_handler_ptr \<longrightarrow>
            (\<forall>j. j \<noteq> bits (ir mp) 12 9 \<longrightarrow> reg mp' ! j = reg mp ! j))
       \<and> (h = bit_op_handler_ptr \<longrightarrow>
            (\<forall>j. j \<noteq> bits (ir mp) 4 1 \<longrightarrow> reg mp' ! j = reg mp ! j))
       \<and> (h = prt_handler_ptr \<or> h = blt_handler_ptr \<longrightarrow> reg mp' = reg mp)"
  proof
    assume c: "call_handler h mp io = Some (rc, mp', io')"
    from call_handler_frame [OF c] one [OF c] show "mem mp' = mem mp \<and> loaded_mem_slots mp' = loaded_mem_slots mp
       \<and> length (reg mp') = length (reg mp)
       \<and> (\<exists>k. \<forall>j. j \<noteq> k \<longrightarrow> reg mp' ! j = reg mp ! j)
       \<and> (h = ldi_handler_ptr \<or> h = rdd_handler_ptr \<longrightarrow>
            (\<forall>j. j \<noteq> bits (ir mp) 12 9 \<longrightarrow> reg mp' ! j = reg mp ! j))
       \<and> (h = bit_op_handler_ptr \<longrightarrow>
            (\<forall>j. j \<noteq> bits (ir mp) 4 1 \<longrightarrow> reg mp' ! j = reg mp ! j))
       \<and> (h = prt_handler_ptr \<or> h = blt_handler_ptr \<longrightarrow> reg mp' = reg mp)"
      by simp
  qed
  have b: "execute_step mp io = Some (rc, mp', io') \<longrightarrow>
       mem mp' = mem mp \<and> loaded_mem_slots mp' = loaded_mem_slots mp
       \<and> length (reg mp') = length (reg mp)
       \<and> (\<exists>k. \<forall>j. j \<noteq> k \<longrightarrow> reg mp' ! j = reg mp ! j)"
  proof
    assume s: "execute_step mp io = Some (rc, mp', io')"
    from execute_step_Some [OF s] obtain rc0 io0
      where c: "call_handler (handler (instr_set mp ! unat (execute_op_code (ir (fetched mp)))))
               (fetched mp) io = Some (rc0, mp', io0)"
      by blast
    from one [OF c] execute_step_frame [OF s]
    show "mem mp' = mem mp \<and> loaded_mem_slots mp' = loaded_mem_slots mp
       \<and> length (reg mp') = length (reg mp)
       \<and> (\<exists>k. \<forall>j. j \<noteq> k \<longrightarrow> reg mp' ! j = reg mp ! j)"
      by (simp add: fetched_simps)
  qed
  have c: "execute_micro_program n mp io = Returns rc mp' io' \<longrightarrow>
       mem mp' = mem mp \<and> loaded_mem_slots mp' = loaded_mem_slots mp"
    using execute_micro_program_frame [of n mp io rc mp' io'] by simp
  from a b c show ?thesis by blast
qed

theorem handlers_frame_witness:
  "call_handler ldi_handler_ptr (fetched (machine_with [] [0x07, 0x90])) quiet
     = Some (SUCCESS, (fetched (machine_with [] [0x07, 0x90]))
               \<lparr>reg := (reg (machine_with [] [0x07, 0x90]))[3 := 200]\<rparr>, quiet)
   \<and> mem ((fetched (machine_with [] [0x07, 0x90]))
               \<lparr>reg := (reg (machine_with [] [0x07, 0x90]))[3 := 200]\<rparr>)
       = mem (fetched (machine_with [] [0x07, 0x90]))
   \<and> reg ((fetched (machine_with [] [0x07, 0x90]))
               \<lparr>reg := (reg (machine_with [] [0x07, 0x90]))[3 := 200]\<rparr>) ! 4
       = reg (fetched (machine_with [] [0x07, 0x90])) ! 4"
proof -
  let ?p = "machine_with [] [0x07, 0x90]"
  let ?r = "(fetched ?p)\<lparr>reg := (reg ?p)[3 := 200]\<rparr>"
  have w: "ir (fetched ?p) = 0x0790"
    by (simp add: fetched_example word_at_def)
  have b: "bits (ir (fetched ?p)) 12 9 = 3" "bits (ir (fetched ?p)) 8 1 = 200"
    unfolding w by (simp_all add: bits_def)
  have c: "call_handler ldi_handler_ptr (fetched ?p) quiet = Some (SUCCESS, ?r, quiet)"
    unfolding call_handler.simps ldi_handler_eq b by (simp add: fetched_simps)
  show ?thesis
    using c handlers_frame [of ldi_handler_ptr "fetched ?p" quiet SUCCESS ?r quiet 0] b
    by simp
qed

text \<open>
  Claim C5. In every iteration whose two reads are inside the memory array, the
  instruction register receives the big-endian word at the program counter (the byte
  at the program counter is the high-order byte), and the program counter is 2 further
  when the handler of the table is called: the iteration is that handler run on the
  fetched machine. The handler leaves the instruction register and the memory alone,
  and the program counter is afterwards either the advanced value or, for \<^verbatim>\<open>BLT\<close>,
  the address field of the word.
\<close>

theorem fetch_before_dispatch:
  assumes "table_set_up mp" and "unat (pc mp) + 1 < MEM_BYTE_SIZE"
  shows "fetch mp = Some (fetched mp)
       \<and> unat (ir (fetched mp))
           = 256 * unat (mem mp ! unat (pc mp)) + unat (mem mp ! (unat (pc mp) + 1))
       \<and> pc (fetched mp) = pc mp + 2
       \<and> unat (pc (fetched mp)) = unat (pc mp) + 2
       \<and> (\<exists>rc mp' io0 io'.
             call_handler (handler (instr_set mp ! unat (execute_op_code (ir (fetched mp)))))
               (fetched mp) io = Some (rc, mp', io0)
           \<and> execute_step mp io = Some (rc, mp', io')
           \<and> ir mp' = ir (fetched mp) \<and> mem mp' = mem mp
           \<and> (pc mp' = pc mp + 2
                \<or> bits (ir (fetched mp)) 15 13 = 7 \<and> pc mp' = of_nat (bits (ir (fetched mp)) 4 0)))"
proof -
  let ?f = "fetched mp"
  let ?h = "handler (instr_set mp ! unat (execute_op_code (ir ?f)))"
  have f: "fetch mp = Some ?f"
    by (rule fetch_fetched [OF assms(2)])
  have u: "unat (pc ?f) = unat (pc mp) + 2"
    using assms(2) by (simp add: fetched_simps MEM_BYTE_SIZE_def unat_word_ariths)
  obtain rc mp' io0 where c: "call_handler ?h ?f io = Some (rc, mp', io0)"
    using call_handler_table [OF assms(1)] by blast
  have "\<exists>io'. execute_step mp io = Some (rc, mp', io')"
    using c by (cases rc) (simp_all add: execute_step_def f Let_def fetched_simps)
  then obtain io' where s: "execute_step mp io = Some (rc, mp', io')" ..
  note fr = call_handler_frame [OF c]
  have p: "pc mp' = pc mp + 2
       \<or> bits (ir ?f) 15 13 = 7 \<and> pc mp' = of_nat (bits (ir ?f) 4 0)"
  proof (cases "?h = blt_handler_ptr")
    case True
    then have "bits (ir ?f) 15 13 = 7"
      using bits_lt [of "ir ?f" 15 13]
      by (simp add: table_handler [OF assms(1)] split: if_splits)
    then show ?thesis using fr True by (auto simp: fetched_simps)
  next
    case False
    then show ?thesis using fr by (simp add: fetched_simps)
  qed
  show ?thesis
    using f u c s fr p by (auto simp: fetched_simps unat_word_at)
qed

theorem fetch_before_dispatch_witness:
  "fetch (machine_with [1, 5] [0xE0, 0x24]) = Some (fetched (machine_with [1, 5] [0xE0, 0x24]))
   \<and> unat (ir (fetched (machine_with [1, 5] [0xE0, 0x24]))) = 256 * 224 + 36
   \<and> unat (pc (fetched (machine_with [1, 5] [0xE0, 0x24]))) = 2
   \<and> (\<exists>rc mp' io'. execute_step (machine_with [1, 5] [0xE0, 0x24]) quiet = Some (rc, mp', io')
         \<and> ir mp' = ir (fetched (machine_with [1, 5] [0xE0, 0x24]))
         \<and> mem mp' = mem (machine_with [1, 5] [0xE0, 0x24]))"
proof -
  let ?a = "machine_with [1, 5] [0xE0, 0x24]"
  have pcs: "unat (pc ?a) + 1 < MEM_BYTE_SIZE"
    by (simp add: machine_with_simps MEM_BYTE_SIZE_def)
  show ?thesis
    using fetch_before_dispatch [OF machine_with_ok(2) pcs, of quiet]
    by (auto simp: machine_with_simps)
qed

section \<open>The loop of the interpreter\<close>

lemma execute_step_pc:
  assumes "execute_step mp io = Some (rc, mp', io')"
  shows "unat (pc mp) + 1 < MEM_BYTE_SIZE
       \<and> (pc mp' = pc mp + 2
            \<or> even (bits (ir (fetched mp)) 4 0) \<and> pc mp' = of_nat (bits (ir (fetched mp)) 4 0))"
proof -
  from execute_step_Some [OF assms] obtain rc0 io0
    where b: "unat (pc mp) + 1 < MEM_BYTE_SIZE"
      and c: "call_handler (handler (instr_set mp ! unat (execute_op_code (ir (fetched mp)))))
                (fetched mp) io = Some (rc0, mp', io0)"
    by blast
  show ?thesis
    using b call_handler_frame [OF c]
    by (cases "handler (instr_set mp ! unat (execute_op_code (ir (fetched mp)))) = blt_handler_ptr")
       (auto simp: fetched_simps)
qed

lemma unat_pc_plus_2: "unat (p :: uint16_t) + 1 < MEM_BYTE_SIZE \<Longrightarrow> unat (p + 2) = unat p + 2"
  by (simp add: MEM_BYTE_SIZE_def unat_word_ariths)

lemma bits_4_0_even_le: "even (bits w 4 0) \<Longrightarrow> bits w 4 0 \<le> 30"
proof -
  assume e: "even (bits w 4 0)"
  have "bits w 4 0 < 32" using bits_lt [of w 4 0] by simp
  with e show ?thesis by presburger
qed

lemma execute_step_even:
  assumes "execute_step mp io = Some (rc, mp', io')" and "even (unat (pc mp))"
  shows "even (unat (pc mp')) \<and> unat (pc mp') \<le> MEM_BYTE_SIZE"
proof -
  from execute_step_pc [OF assms(1)]
  have b: "unat (pc mp) + 1 < MEM_BYTE_SIZE"
    and d: "pc mp' = pc mp + 2
            \<or> even (bits (ir (fetched mp)) 4 0) \<and> pc mp' = of_nat (bits (ir (fetched mp)) 4 0)"
    by blast+
  from d show ?thesis
  proof
    assume "pc mp' = pc mp + 2"
    then show ?thesis
      using b assms(2) by (simp add: unat_pc_plus_2)
  next
    assume "even (bits (ir (fetched mp)) 4 0) \<and> pc mp' = of_nat (bits (ir (fetched mp)) 4 0)"
    then show ?thesis
      using bits_4_0_even_le [of "ir (fetched mp)"]
      by (simp add: unat_of_nat_bits_4_0 MEM_BYTE_SIZE_def)
  qed
qed

lemma uint_less_unat: "uint (a :: uint16_t) < uint (b :: byte_t) \<longleftrightarrow> unat a < unat b"
  by (simp only: uint_nat of_nat_less_iff)

lemma loop_test_invariant:
  assumes "loop_test mp0 io0 mp io" and "even (unat (pc mp0))"
  shows "even (unat (pc mp)) \<and> unat (pc mp) \<le> MEM_BYTE_SIZE
       \<and> loaded_mem_slots mp = loaded_mem_slots mp0 \<and> mem mp = mem mp0
       \<and> instr_set mp = instr_set mp0"
  using assms
proof (induction rule: loop_test.induct)
  case (first mp io)
  then show ?case
    using execute_step_even [of mp0 io0 SUCCESS mp io] execute_step_frame [of mp0 io0 SUCCESS mp io]
    by simp
next
  case (again mp io mp' io')
  then show ?case
    using execute_step_even [of mp io SUCCESS mp' io'] execute_step_frame [of mp io SUCCESS mp' io']
    by simp
qed

lemma loop_test_prepend:
  assumes "loop_test mp1 io1 mp' io'"
    and "execute_step mp io = Some (SUCCESS, mp1, io1)"
    and "uint (pc mp1) < uint (loaded_mem_slots mp1)"
  shows "loop_test mp io mp' io'"
  using assms
proof (induction rule: loop_test.induct)
  case (first m i)
  have "loop_test mp io mp1 io1"
    using first.prems(1) by (rule loop_test.first)
  then show ?case
    using first.prems(2) first.hyps by (rule loop_test.again)
next
  case (again m i m' i')
  then show ?case
    by (blast intro: loop_test.again)
qed

lemma returns_loop_test:
  "execute_micro_program n mp io = Returns SUCCESS mp' io' \<Longrightarrow> loop_test mp io mp' io'"
proof (induction n arbitrary: mp io)
  case 0
  then show ?case by simp
next
  case (Suc n)
  from Suc.prems obtain rc1 mp1 io1 where s: "execute_step mp io = Some (rc1, mp1, io1)"
    by (auto split: option.splits)
  have rc1: "rc1 = SUCCESS"
    using Suc.prems s by (auto split: if_splits)
  show ?case
  proof (cases "uint (pc mp1) < uint (loaded_mem_slots mp1)")
    case True
    then have "execute_micro_program n mp1 io1 = Returns SUCCESS mp' io'"
      using Suc.prems s rc1 by simp
    from Suc.IH [OF this] show ?thesis
      using s rc1 True by (blast intro: loop_test_prepend)
  next
    case False
    then have "mp' = mp1" "io' = io1"
      using Suc.prems s rc1 by simp_all
    then show ?thesis using s rc1 by (simp add: loop_test.first)
  qed
qed

lemma returns_pc:
  "execute_micro_program n mp io = Returns SUCCESS mp' io' \<Longrightarrow>
     uint (loaded_mem_slots mp') \<le> uint (pc mp') \<and> 0 < n"
proof (induction n arbitrary: mp io)
  case 0
  then show ?case by simp
next
  case (Suc n)
  from Suc.prems obtain rc1 mp1 io1 where s: "execute_step mp io = Some (rc1, mp1, io1)"
    by (auto split: option.splits)
  have rc1: "rc1 = SUCCESS"
    using Suc.prems s by (auto split: if_splits)
  show ?case
  proof (cases "uint (pc mp1) < uint (loaded_mem_slots mp1)")
    case True
    then have "execute_micro_program n mp1 io1 = Returns SUCCESS mp' io'"
      using Suc.prems s rc1 by simp
    from Suc.IH [OF this] show ?thesis by simp
  next
    case False
    then have "mp' = mp1"
      using Suc.prems s rc1 by simp
    then show ?thesis using False by simp
  qed
qed

lemma step_no_branch:
  assumes "table_set_up mp" and "unat (pc mp) + 1 < MEM_BYTE_SIZE"
    and "\<not> branch_taken (fetched mp)"
  shows "\<exists>mp' io'. execute_step mp io = Some (SUCCESS, mp', io') \<and> pc mp' = pc mp + 2"
proof -
  let ?f = "fetched mp"
  let ?op = "bits (ir ?f) 15 13"
  have lt: "?op < 8" using bits_lt [of "ir ?f" 15 13] by simp
  note e = execute_step_eq [OF assms(1,2), of io]
  consider "?op = 0" | "1 \<le> ?op \<and> ?op \<le> 4" | "?op = 5" | "?op = 6" | "?op = 7"
    using lt by arith
  then show ?thesis
  proof cases
    case 1
    then show ?thesis by (simp add: e ldi_handler_eq fetched_simps)
  next
    case 2
    then have "?op \<in> {1, 2, 3, 4}" by auto
    then show ?thesis by (auto simp: e bit_op_handler_eq Let_def fetched_simps)
  next
    case 3
    then show ?thesis by (simp add: e prt_handler_eq fetched_simps)
  next
    case 4
    obtain rc m' i' where r: "rdd_handler ?f io = (rc, m', i')"
      by (rule prod_cases3)
    from rdd_handler_reg [OF r] 4 show ?thesis
      by (auto simp: e r fetched_simps)
  next
    case 5
    then have "\<not> reg ?f ! bits (ir ?f) 12 9 < reg ?f ! bits (ir ?f) 8 5"
      using assms(3) by (simp add: branch_taken_def)
    then show ?thesis using 5 by (simp add: e blt_handler_eq fetched_simps)
  qed
qed

lemma machine_with_bound: "unat (pc (machine_with regs program)) + 1 < MEM_BYTE_SIZE"
  by (simp add: machine_with_simps MEM_BYTE_SIZE_def)

lemma run_step:
  "execute_step mp io = Some (SUCCESS, mp', io') \<Longrightarrow>
     execute_micro_program (Suc n) mp io
       = (if uint (pc mp') < uint (loaded_mem_slots mp')
          then execute_micro_program n mp' io' else Returns SUCCESS mp' io')"
  by simp

lemma far_branch_steps:
  "execute_step (machine_with [] [0x02, 0x02, 0xE0, 0x3E]) quiet
     = Some (SUCCESS,
         (fetched (machine_with [] [0x02, 0x02, 0xE0, 0x3E]))
           \<lparr>reg := (reg (fetched (machine_with [] [0x02, 0x02, 0xE0, 0x3E])))[1 := 1]\<rparr>, quiet)"
  "execute_step
     ((fetched (machine_with [] [0x02, 0x02, 0xE0, 0x3E]))
        \<lparr>reg := (reg (fetched (machine_with [] [0x02, 0x02, 0xE0, 0x3E])))[1 := 1]\<rparr>) quiet
     = Some (SUCCESS,
         (fetched ((fetched (machine_with [] [0x02, 0x02, 0xE0, 0x3E]))
           \<lparr>reg := (reg (fetched (machine_with [] [0x02, 0x02, 0xE0, 0x3E])))[1 := 1]\<rparr>))
           \<lparr>pc := 30\<rparr>, quiet)"
proof -
  let ?p = "machine_with [] [0x02, 0x02, 0xE0, 0x3E]"
  let ?p1 = "(fetched ?p)\<lparr>reg := (reg (fetched ?p))[1 := 1]\<rparr>"
  have w: "ir (fetched ?p) = 0x0202"
    by (simp add: fetched_simps machine_with_simps word_at_def)
  have op: "bits (ir (fetched ?p)) 15 13 = 0" "bits (ir (fetched ?p)) 12 9 = 1"
    "bits (ir (fetched ?p)) 8 1 = 1"
    unfolding w by (simp_all add: bits_def)
  show "execute_step ?p quiet = Some (SUCCESS, ?p1, quiet)"
    unfolding execute_step_eq [OF machine_with_ok(2) machine_with_bound] ldi_handler_eq op
    by simp
  have t1: "table_set_up ?p1"
    using machine_with_ok(2) [of "[]" "[0x02, 0x02, 0xE0, 0x3E]"]
    by (simp add: table_set_up_def fetched_simps)
  have b1: "unat (pc ?p1) + 1 < MEM_BYTE_SIZE"
    by (simp add: fetched_simps machine_with_simps MEM_BYTE_SIZE_def)
  have w1: "ir (fetched ?p1) = 0xE03E"
    by (simp add: fetched_simps machine_with_simps word_at_def)
  have op1: "bits (ir (fetched ?p1)) 15 13 = 7"
    unfolding w1 by (simp add: bits_def)
  show "execute_step ?p1 quiet = Some (SUCCESS, (fetched ?p1)\<lparr>pc := 30\<rparr>, quiet)"
    unfolding execute_step_blt [OF t1 b1 op1] w1
    by (simp add: bits_def fetched_simps machine_with_simps)
qed

text \<open>
  Claim C7, as the code has it. In every state in which the loop of a run started at
  program counter 0 tests its condition, the program counter is even and at most the
  size of the memory array, and the loaded size is the one of the start. When the loaded
  size is at most the size of the array and the test succeeds, the next fetch reads
  inside the array. An iteration leaves the program counter 2 further or, on a branch,
  at the even address field of the word, which is at most 30: the branch target is
  bounded by the width of the field, not by the loaded size.
\<close>

theorem pc_even_between_fetches:
  assumes "pc mp0 = 0" and "loop_test mp0 io0 mp io"
  shows "even (unat (pc mp)) \<and> unat (pc mp) \<le> MEM_BYTE_SIZE
       \<and> loaded_mem_slots mp = loaded_mem_slots mp0
       \<and> (unat (loaded_mem_slots mp0) \<le> MEM_BYTE_SIZE \<and> uint (pc mp) < uint (loaded_mem_slots mp)
            \<longrightarrow> unat (pc mp) + 1 < MEM_BYTE_SIZE)
       \<and> (\<forall>rc mp' io'. execute_step mp io = Some (rc, mp', io') \<longrightarrow>
              unat (pc mp') = unat (pc mp) + 2
            \<or> even (bits (ir mp') 4 0) \<and> unat (pc mp') = bits (ir mp') 4 0 \<and> unat (pc mp') \<le> 30)"
proof -
  have inv: "even (unat (pc mp))" "unat (pc mp) \<le> MEM_BYTE_SIZE"
    "loaded_mem_slots mp = loaded_mem_slots mp0"
    using loop_test_invariant [OF assms(2)] assms(1) by simp_all
  have nxt: "unat (pc mp) + 1 < MEM_BYTE_SIZE"
    if "unat (loaded_mem_slots mp0) \<le> MEM_BYTE_SIZE" "uint (pc mp) < uint (loaded_mem_slots mp)"
  proof -
    have "unat (pc mp) < MEM_BYTE_SIZE"
      using that inv(3) by (simp add: uint_less_unat)
    with inv(1) show ?thesis
      unfolding MEM_BYTE_SIZE_def by presburger
  qed
  have stp: "unat (pc mp') = unat (pc mp) + 2
            \<or> even (bits (ir mp') 4 0) \<and> unat (pc mp') = bits (ir mp') 4 0 \<and> unat (pc mp') \<le> 30"
    if s: "execute_step mp io = Some (rc, mp', io')" for rc mp' io'
  proof -
    have i: "ir mp' = ir (fetched mp)"
      using execute_step_frame [OF s] by simp
    from execute_step_pc [OF s]
    have b: "unat (pc mp) + 1 < MEM_BYTE_SIZE"
      and d: "pc mp' = pc mp + 2
            \<or> even (bits (ir (fetched mp)) 4 0) \<and> pc mp' = of_nat (bits (ir (fetched mp)) 4 0)"
      by blast+
    from d show ?thesis
    proof
      assume "pc mp' = pc mp + 2"
      then show ?thesis using b by (simp add: unat_pc_plus_2)
    next
      assume "even (bits (ir (fetched mp)) 4 0) \<and> pc mp' = of_nat (bits (ir (fetched mp)) 4 0)"
      then show ?thesis
        using bits_4_0_even_le [of "ir (fetched mp)"] by (simp add: i unat_of_nat_bits_4_0)
    qed
  qed
  show ?thesis
    using inv nxt stp by blast
qed

theorem pc_even_between_fetches_witness:
  "even (unat (pc ((fetched ((fetched (machine_with [] [0x02, 0x02, 0xE0, 0x3E]))
              \<lparr>reg := (reg (fetched (machine_with [] [0x02, 0x02, 0xE0, 0x3E])))[1 := 1]\<rparr>))
              \<lparr>pc := 30\<rparr>)))
   \<and> unat (pc ((fetched ((fetched (machine_with [] [0x02, 0x02, 0xE0, 0x3E]))
              \<lparr>reg := (reg (fetched (machine_with [] [0x02, 0x02, 0xE0, 0x3E])))[1 := 1]\<rparr>))
              \<lparr>pc := 30\<rparr>)) \<le> MEM_BYTE_SIZE"
proof -
  let ?p = "machine_with [] [0x02, 0x02, 0xE0, 0x3E]"
  let ?p1 = "(fetched ?p)\<lparr>reg := (reg (fetched ?p))[1 := 1]\<rparr>"
  let ?p2 = "(fetched ?p1)\<lparr>pc := 30\<rparr>"
  have "loop_test ?p quiet ?p1 quiet"
    by (rule loop_test.first) (rule far_branch_steps(1))
  moreover have "uint (pc ?p1) < uint (loaded_mem_slots ?p1)"
    by (simp add: fetched_simps machine_with_simps)
  ultimately have l: "loop_test ?p quiet ?p2 quiet"
    by (rule loop_test.again) (rule far_branch_steps(2))
  have z: "pc ?p = 0"
    by (simp add: machine_with_simps)
  from pc_even_between_fetches [OF z l] show ?thesis
    by blast
qed

text \<open>
  The claim C7 as stated fails for the program \<^verbatim>\<open>LDI R1 1; BLT R0 R1 30\<close>: its loaded
  size is 4 and the taken branch leaves the program counter at 30.
\<close>

theorem branch_target_beyond_loaded_size:
  "map_option (fst \<circ> snd)
     (disassemble_micro_program 8 (create_instruction_set create_microputer) [0x02, 0x02, 0xE0, 0x3E]
        (replicate 16 []))
     = Some (machine_with [] [0x02, 0x02, 0xE0, 0x3E])
   \<and> unat (loaded_mem_slots (machine_with [] [0x02, 0x02, 0xE0, 0x3E])) = 4
   \<and> pc (machine_with [] [0x02, 0x02, 0xE0, 0x3E]) = 0
   \<and> execute_micro_program 2 (machine_with [] [0x02, 0x02, 0xE0, 0x3E]) quiet
       = Returns SUCCESS
           ((fetched ((fetched (machine_with [] [0x02, 0x02, 0xE0, 0x3E]))
              \<lparr>reg := (reg (fetched (machine_with [] [0x02, 0x02, 0xE0, 0x3E])))[1 := 1]\<rparr>))
              \<lparr>pc := 30\<rparr>) quiet
   \<and> unat (pc ((fetched ((fetched (machine_with [] [0x02, 0x02, 0xE0, 0x3E]))
              \<lparr>reg := (reg (fetched (machine_with [] [0x02, 0x02, 0xE0, 0x3E])))[1 := 1]\<rparr>))
              \<lparr>pc := 30\<rparr>)) = 30
   \<and> unat (loaded_mem_slots ((fetched ((fetched (machine_with [] [0x02, 0x02, 0xE0, 0x3E]))
              \<lparr>reg := (reg (fetched (machine_with [] [0x02, 0x02, 0xE0, 0x3E])))[1 := 1]\<rparr>))
              \<lparr>pc := 30\<rparr>)) = 4"
proof -
  have ld: "map_option (fst \<circ> snd)
     (disassemble_micro_program 8 (create_instruction_set create_microputer) [0x02, 0x02, 0xE0, 0x3E]
        (replicate 16 []))
     = Some (machine_with [] [0x02, 0x02, 0xE0, 0x3E])"
    by (rule loaded_machine) simp
  have rest: "unat (loaded_mem_slots (machine_with [] [0x02, 0x02, 0xE0, 0x3E])) = 4
   \<and> pc (machine_with [] [0x02, 0x02, 0xE0, 0x3E]) = 0
   \<and> execute_micro_program 2 (machine_with [] [0x02, 0x02, 0xE0, 0x3E]) quiet
       = Returns SUCCESS
           ((fetched ((fetched (machine_with [] [0x02, 0x02, 0xE0, 0x3E]))
              \<lparr>reg := (reg (fetched (machine_with [] [0x02, 0x02, 0xE0, 0x3E])))[1 := 1]\<rparr>))
              \<lparr>pc := 30\<rparr>) quiet
   \<and> unat (pc ((fetched ((fetched (machine_with [] [0x02, 0x02, 0xE0, 0x3E]))
              \<lparr>reg := (reg (fetched (machine_with [] [0x02, 0x02, 0xE0, 0x3E])))[1 := 1]\<rparr>))
              \<lparr>pc := 30\<rparr>)) = 30
   \<and> unat (loaded_mem_slots ((fetched ((fetched (machine_with [] [0x02, 0x02, 0xE0, 0x3E]))
              \<lparr>reg := (reg (fetched (machine_with [] [0x02, 0x02, 0xE0, 0x3E])))[1 := 1]\<rparr>))
              \<lparr>pc := 30\<rparr>)) = 4"
    unfolding numeral_2_eq_2 run_step [OF far_branch_steps(1)] run_step [OF far_branch_steps(2)]
    by (simp add: fetched_simps machine_with_simps)
  show ?thesis
    by (rule conjI [OF ld rest])
qed

text \<open>
  Claim C2, as the code has it. The loop is a \<^verbatim>\<open>do ... while\<close>: an iteration that
  succeeds is followed by another one exactly when the program counter is below the
  loaded size, and a run that returns \<^verbatim>\<open>SUCCESS\<close> has made at least one iteration
  and ends with the program counter at or beyond the loaded size. With the loaded size 0
  and the program counter 0 the instruction at 0 is fetched and executed, and the run
  ends after this one iteration. With the loaded size 4 and no branch taken a run makes
  exactly two iterations: two iterations are enough for it to return, with the program
  counter at 4, and one is not. A branch taken to an even address below the loaded size
  is followed by the iteration at that address.
\<close>

theorem interpreter_loop:
  "(execute_step mp io = Some (SUCCESS, mp', io') \<longrightarrow>
      execute_micro_program (Suc n) mp io
        = (if uint (pc mp') < uint (loaded_mem_slots mp')
           then execute_micro_program n mp' io' else Returns SUCCESS mp' io'))
   \<and> (execute_micro_program n mp io = Returns SUCCESS mp' io' \<longrightarrow>
        uint (loaded_mem_slots mp') \<le> uint (pc mp') \<and> 0 < n)
   \<and> (table_set_up mp \<and> pc mp = 0 \<and> loaded_mem_slots mp = 0 \<and> \<not> branch_taken (fetched mp) \<longrightarrow>
        (\<exists>m1 io1. execute_step mp io = Some (SUCCESS, m1, io1) \<and> unat (pc m1) = 2
            \<and> execute_micro_program (Suc n) mp io = Returns SUCCESS m1 io1))
   \<and> (table_set_up mp \<and> pc mp = 0 \<and> loaded_mem_slots mp = 4 \<and> \<not> branch_taken (fetched mp)
        \<and> (\<forall>m1 io1. execute_step mp io = Some (SUCCESS, m1, io1) \<longrightarrow> \<not> branch_taken (fetched m1))
       \<longrightarrow> (\<exists>m2 io2. execute_micro_program (Suc (Suc n)) mp io = Returns SUCCESS m2 io2
              \<and> unat (pc m2) = 4 \<and> execute_micro_program 1 mp io = Out_of_fuel))
   \<and> (table_set_up mp \<and> unat (pc mp) + 1 < MEM_BYTE_SIZE \<and> branch_taken (fetched mp)
        \<and> even (bits (ir (fetched mp)) 4 0)
        \<and> bits (ir (fetched mp)) 4 0 < unat (loaded_mem_slots mp)
       \<longrightarrow> execute_micro_program (Suc n) mp io
            = execute_micro_program n ((fetched mp)\<lparr>pc := of_nat (bits (ir (fetched mp)) 4 0)\<rparr>) io)"
proof -
  have a: "execute_step mp io = Some (SUCCESS, mp', io') \<longrightarrow>
      execute_micro_program (Suc n) mp io
        = (if uint (pc mp') < uint (loaded_mem_slots mp')
           then execute_micro_program n mp' io' else Returns SUCCESS mp' io')"
    by simp
  have b: "execute_micro_program n mp io = Returns SUCCESS mp' io' \<longrightarrow>
        uint (loaded_mem_slots mp') \<le> uint (pc mp') \<and> 0 < n"
    using returns_pc [of n mp io mp' io'] by blast
  have c: "\<exists>m1 io1. execute_step mp io = Some (SUCCESS, m1, io1) \<and> unat (pc m1) = 2
            \<and> execute_micro_program (Suc n) mp io = Returns SUCCESS m1 io1"
    if h: "table_set_up mp" "pc mp = 0" "loaded_mem_slots mp = 0" "\<not> branch_taken (fetched mp)"
  proof -
    have bd: "unat (pc mp) + 1 < MEM_BYTE_SIZE"
      using h(2) by (simp add: MEM_BYTE_SIZE_def)
    from step_no_branch [OF h(1) bd h(4), of io] obtain m1 io1
      where s: "execute_step mp io = Some (SUCCESS, m1, io1)" and p: "pc m1 = pc mp + 2"
      by blast
    have l: "loaded_mem_slots m1 = 0"
      using execute_step_frame [OF s] h(3) by simp
    show ?thesis
      using s p l h(2) by simp
  qed
  have d: "\<exists>m2 io2. execute_micro_program (Suc (Suc n)) mp io = Returns SUCCESS m2 io2
              \<and> unat (pc m2) = 4 \<and> execute_micro_program 1 mp io = Out_of_fuel"
    if h: "table_set_up mp" "pc mp = 0" "loaded_mem_slots mp = 4" "\<not> branch_taken (fetched mp)"
      "\<forall>m1 io1. execute_step mp io = Some (SUCCESS, m1, io1) \<longrightarrow> \<not> branch_taken (fetched m1)"
  proof -
    have bd: "unat (pc mp) + 1 < MEM_BYTE_SIZE"
      using h(2) by (simp add: MEM_BYTE_SIZE_def)
    from step_no_branch [OF h(1) bd h(4), of io] obtain m1 io1
      where s1: "execute_step mp io = Some (SUCCESS, m1, io1)" and p1: "pc m1 = 2"
      using h(2) by auto
    have f1: "loaded_mem_slots m1 = 4" "table_set_up m1"
      using execute_step_frame [OF s1] h(1,3) by (simp_all add: table_set_up_def)
    have bd1: "unat (pc m1) + 1 < MEM_BYTE_SIZE"
      using p1 by (simp add: MEM_BYTE_SIZE_def)
    have nb: "\<not> branch_taken (fetched m1)"
      using h(5) s1 by blast
    from step_no_branch [OF f1(2) bd1 nb, of io1] obtain m2 io2
      where s2: "execute_step m1 io1 = Some (SUCCESS, m2, io2)" and p2: "pc m2 = 4"
      using p1 by auto
    have f2: "loaded_mem_slots m2 = 4"
      using execute_step_frame [OF s2] f1(1) by simp
    have "execute_micro_program (Suc (Suc n)) mp io = Returns SUCCESS m2 io2"
      by (simp add: s1 p1 f1(1) s2 p2 f2)
    moreover have "execute_micro_program 1 mp io = Out_of_fuel"
      unfolding One_nat_def by (simp add: s1 p1 f1(1))
    ultimately show ?thesis
      using p2 by simp
  qed
  have e: "execute_micro_program (Suc n) mp io
            = execute_micro_program n ((fetched mp)\<lparr>pc := of_nat (bits (ir (fetched mp)) 4 0)\<rparr>) io"
    if h: "table_set_up mp" "unat (pc mp) + 1 < MEM_BYTE_SIZE" "branch_taken (fetched mp)"
      "even (bits (ir (fetched mp)) 4 0)" "bits (ir (fetched mp)) 4 0 < unat (loaded_mem_slots mp)"
  proof -
    have op: "bits (ir (fetched mp)) 15 13 = 7"
      and lt: "reg mp ! bits (ir (fetched mp)) 12 9 < reg mp ! bits (ir (fetched mp)) 8 5"
      using h(3) by (simp_all add: branch_taken_def fetched_simps)
    have s: "execute_step mp io
        = Some (SUCCESS, (fetched mp)\<lparr>pc := of_nat (bits (ir (fetched mp)) 4 0)\<rparr>, io)"
      using lt h(4) by (simp add: execute_step_blt [OF h(1,2) op])
    have "uint (of_nat (bits (ir (fetched mp)) 4 0) :: uint16_t) < uint (loaded_mem_slots mp)"
      using h(5) by (simp add: uint_less_unat unat_of_nat_bits_4_0)
    then show ?thesis
      by (simp add: s fetched_simps)
  qed
  from a b c d e show ?thesis by blast
qed

theorem interpreter_loop_witness:
  "(\<exists>m2 io2. execute_micro_program 2 (machine_with [] [0x02, 0x02, 0x07, 0x90]) quiet
                = Returns SUCCESS m2 io2 \<and> unat (pc m2) = 4)
   \<and> execute_micro_program 1 (machine_with [] [0x02, 0x02, 0x07, 0x90]) quiet = Out_of_fuel"
proof -
  let ?p = "machine_with [] [0x02, 0x02, 0x07, 0x90]"
  let ?p1 = "(fetched ?p)\<lparr>reg := (reg (fetched ?p))[1 := 1]\<rparr>"
  have w: "ir (fetched ?p) = 0x0202"
    by (simp add: fetched_simps machine_with_simps word_at_def)
  have op: "bits (ir (fetched ?p)) 15 13 = 0" "bits (ir (fetched ?p)) 12 9 = 1"
    "bits (ir (fetched ?p)) 8 1 = 1"
    unfolding w by (simp_all add: bits_def)
  have s: "execute_step ?p quiet = Some (SUCCESS, ?p1, quiet)"
    unfolding execute_step_eq [OF machine_with_ok(2) machine_with_bound] ldi_handler_eq op
    by simp
  have w1: "ir (fetched ?p1) = 0x0790"
    by (simp add: fetched_simps machine_with_simps word_at_def)
  have nb: "\<not> branch_taken (fetched ?p)"
    by (simp add: branch_taken_def op)
  have "\<not> branch_taken (fetched ?p1)"
    unfolding branch_taken_def w1 by (simp add: bits_def)
  then have nb1: "\<forall>m1 io1. execute_step ?p quiet = Some (SUCCESS, m1, io1) \<longrightarrow> \<not> branch_taken (fetched m1)"
    unfolding s by auto
  have h: "table_set_up ?p \<and> pc ?p = 0 \<and> loaded_mem_slots ?p = 4 \<and> \<not> branch_taken (fetched ?p)
        \<and> (\<forall>m1 io1. execute_step ?p quiet = Some (SUCCESS, m1, io1) \<longrightarrow> \<not> branch_taken (fetched m1))"
    using nb nb1 by (simp add: machine_with_ok machine_with_simps)
  from interpreter_loop [of ?p quiet _ _ 0, THEN conjunct2, THEN conjunct2, THEN conjunct2,
      THEN conjunct1, rule_format, OF h]
  show ?thesis
    unfolding numeral_2_eq_2 by blast
qed

text \<open>
  The claim C2 as stated fails for the empty program: the loaded size and the program
  counter are 0, and the run fetches and executes the word at 0 (\<^verbatim>\<open>LDI R0 0\<close> in the
  zeroed memory), ending with the program counter at 2.
\<close>

theorem empty_program_runs_one_instruction:
  "map_option (fst \<circ> snd)
     (disassemble_micro_program 8 (create_instruction_set create_microputer) []
        (replicate 16 []))
     = Some (machine_with [] [])
   \<and> loaded_mem_slots (machine_with [] []) = 0
   \<and> pc (machine_with [] []) = 0
   \<and> execute_step (machine_with [] []) quiet = Some (SUCCESS, fetched (machine_with [] []), quiet)
   \<and> execute_micro_program 1 (machine_with [] []) quiet
        = Returns SUCCESS (fetched (machine_with [] [])) quiet
   \<and> unat (pc (fetched (machine_with [] []))) = 2"
proof -
  have ld: "map_option (fst \<circ> snd)
     (disassemble_micro_program 8 (create_instruction_set create_microputer) []
        (replicate 16 []))
     = Some (machine_with [] [])"
    by (rule loaded_machine) simp
  have rest: "loaded_mem_slots (machine_with [] []) = 0
   \<and> pc (machine_with [] []) = 0
   \<and> execute_step (machine_with [] []) quiet = Some (SUCCESS, fetched (machine_with [] []), quiet)
   \<and> execute_micro_program 1 (machine_with [] []) quiet
        = Returns SUCCESS (fetched (machine_with [] [])) quiet
   \<and> unat (pc (fetched (machine_with [] []))) = 2"
  proof -
    let ?p = "machine_with [] []"
    have w: "ir (fetched ?p) = 0"
      by (simp add: fetched_simps machine_with_simps word_at_def)
    have op: "bits (ir (fetched ?p)) 15 13 = 0" "bits (ir (fetched ?p)) 12 9 = 0"
      "bits (ir (fetched ?p)) 8 1 = 0"
      unfolding w by (simp_all add: bits_def)
    have r: "(reg (fetched ?p))[0 := 0] = reg (fetched ?p)"
      by (simp add: fetched_simps machine_with_simps list_update_same_conv)
    have s: "execute_step ?p quiet = Some (SUCCESS, fetched ?p, quiet)"
      unfolding execute_step_eq [OF machine_with_ok(2) machine_with_bound] ldi_handler_eq op
      by (simp add: r)
    have run: "execute_micro_program 1 ?p quiet = Returns SUCCESS (fetched ?p) quiet"
      unfolding One_nat_def execute_micro_program.simps s
      by (simp add: fetched_simps machine_with_simps)
    show ?thesis
      using s run by (simp add: fetched_simps machine_with_simps)
  qed
  show ?thesis
    by (rule conjI [OF ld rest])
qed

section \<open>The opcode on the two paths\<close>

text \<open>
  One iteration of each loop, for any machine and any table: the interpreter calls the
  handler of the entry that the bits 15 to 13 of the fetched word select, and the
  disassembly loop, when the byte it has read completes a word, calls the disassembler of
  the entry that the bits 15 to 13 of that word select.
\<close>

lemma execute_step_dispatch:
  assumes "unat (pc mp) + 1 < MEM_BYTE_SIZE"
  shows "execute_step mp io =
     (case call_handler (handler (instr_set mp ! bits (ir (fetched mp)) 15 13)) (fetched mp) io of
        None \<Rightarrow> None
      | Some (rc, mp2, io2) \<Rightarrow>
          if rc \<noteq> SUCCESS
          then Some (ERROR, mp2,
                io2\<lparr>stdout := stdout io2 @ tab @ ''# [ERROR: '' @ dec (bits (ir (fetched mp)) 15 13)
                      @ '' handler returned error code!] #'' @ newline\<rparr>)
          else Some (SUCCESS, mp2, io2))"
  unfolding execute_step_def fetch_fetched [OF assms] Let_def execute_op_code_unat
  by (simp add: fetched_simps(6))

lemma load_loop_dispatch:
  assumes "counter < MEM_BYTE_SIZE" and "odd counter"
  shows "load_loop alloc (b # rest) counter mq buf =
     (case call_disassembler
             (disassembler (instr_set mq ! bits (word_at ((mem mq)[counter := b]) (counter - 1)) 15 13))
             (word_at ((mem mq)[counter := b]) (counter - 1)) (buf ! (counter div 2)) of
        None \<Rightarrow> None
      | Some line \<Rightarrow>
          if MAX_ASM_LINE_LEN * (counter div 2) + length line + 1 \<le> alloc
          then load_loop alloc rest (counter + 1) (mq\<lparr>mem := (mem mq)[counter := b]\<rparr>)
                 (buf[counter div 2 := line])
          else None)"
proof -
  let ?m1 = "(mem mq)[counter := b]"
  have pos: "counter - 1 + 1 = counter"
    using assms(2) by (cases counter) simp_all
  have w: "push_bit 8 (ucast (?m1 ! (counter - 1)) :: uint16_t) OR ucast (?m1 ! counter)
         = word_at ?m1 (counter - 1)"
    unfolding word_at_def pos by (simp add: big_endian)
  have par: "(counter + 1) mod 2 = 0"
    using assms(2) by presburger
  show ?thesis
    using assms(1) par
    by (simp add: Let_def w disassemble_op_code_unat del: One_nat_def)
qed


lemma execute_step_word:
  assumes "unat (pc mp) + 1 < MEM_BYTE_SIZE" and "word_at (mem mp) (unat (pc mp)) = w"
  shows "fetch mp = Some (mp\<lparr>ir := w, pc := pc mp + 2\<rparr>)
       \<and> execute_step mp io =
          (case call_handler (handler (instr_set mp ! unat (execute_op_code w)))
                  (mp\<lparr>ir := w, pc := pc mp + 2\<rparr>) io of
             None \<Rightarrow> None
           | Some (rc, mp2, io2) \<Rightarrow>
               if rc \<noteq> SUCCESS
               then Some (ERROR, mp2,
                     io2\<lparr>stdout := stdout io2 @ tab @ ''# [ERROR: '' @ dec (unat (execute_op_code w))
                           @ '' handler returned error code!] #'' @ newline\<rparr>)
               else Some (SUCCESS, mp2, io2))"
proof -
  have f: "fetched mp = mp\<lparr>ir := w, pc := pc mp + 2\<rparr>"
    by (simp add: fetched_def assms(2))
  have i: "ir (mp\<lparr>ir := w, pc := pc mp + 2\<rparr>) = w"
    by simp
  show ?thesis
    using fetch_fetched [OF assms(1)] execute_step_dispatch [OF assms(1), of io]
    unfolding f i execute_op_code_unat by simp
qed

lemma load_loop_word:
  assumes "counter < MEM_BYTE_SIZE" and "odd counter"
    and "word_at ((mem mq)[counter := b]) (counter - 1) = w"
  shows "load_loop alloc (b # rest) counter mq buf =
     (case call_disassembler (disassembler (instr_set mq ! unat (disassemble_op_code w))) w
             (buf ! (counter div 2)) of
        None \<Rightarrow> None
      | Some line \<Rightarrow>
          if MAX_ASM_LINE_LEN * (counter div 2) + length line + 1 \<le> alloc
          then load_loop alloc rest (counter + 1) (mq\<lparr>mem := (mem mq)[counter := b]\<rparr>)
                 (buf[counter div 2 := line])
          else None)"
  using load_loop_dispatch [OF assms(1,2), of alloc b rest mq buf]
  unfolding assms(3) disassemble_op_code_unat .

lemma program_word:
  assumes "length bin_file \<le> MEM_BYTE_SIZE"
    and "MAX_ASM_LINE_LEN * (length bin_file div WORD_SIZE)
           \<le> sizeof_pointer * (MEM_BYTE_SIZE div WORD_SIZE)"
  shows "\<exists>lines.
      disassemble_micro_program sizeof_pointer (create_instruction_set create_microputer)
          bin_file (replicate 16 [])
        = Some (SUCCESS, machine_with [] bin_file,
            join_lines (map (\<lambda>j. dec (2 * j) @ '': '' @ lines ! j) [0..<length lines]))
    \<and> length lines = length bin_file div 2
    \<and> (\<forall>j<length lines. word_at bin_file (2 * j) = w \<longrightarrow>
          call_disassembler
              (disassembler (instr_set (machine_with [] bin_file) ! unat (disassemble_op_code w)))
              w [] = Some (lines ! j)
        \<and> execute_step ((machine_with [] bin_file)\<lparr>pc := of_nat (2 * j)\<rparr>) io =
            (case call_handler
                    (handler (instr_set (machine_with [] bin_file) ! unat (execute_op_code w)))
                    ((machine_with [] bin_file)\<lparr>ir := w, pc := of_nat (2 * j) + 2\<rparr>) io of
               None \<Rightarrow> None
             | Some (rc, mp2, io2) \<Rightarrow>
                 if rc \<noteq> SUCCESS
                 then Some (ERROR, mp2,
                       io2\<lparr>stdout := stdout io2 @ tab @ ''# [ERROR: ''
                             @ dec (unat (execute_op_code w))
                             @ '' handler returned error code!] #'' @ newline\<rparr>)
                 else Some (SUCCESS, mp2, io2)))"
proof -
  let ?M = "machine_with [] bin_file"
  have len: "length bin_file \<le> 32"
    using assms(1) by (simp add: MEM_BYTE_SIZE_def)
  have fit: "15 * (length bin_file div 2) \<le> sizeof_pointer * 16"
    using assms(2) by (simp add: MAX_ASM_LINE_LEN_def MEM_BYTE_SIZE_def WORD_SIZE_def)
  from loaded_listing [OF len fit] obtain lines
    where d: "disassemble_micro_program sizeof_pointer (create_instruction_set create_microputer)
            bin_file (replicate 16 [])
          = Some (SUCCESS, ?M,
              join_lines (map (\<lambda>j. dec (2 * j) @ '': '' @ lines ! j) [0..<length lines]))"
      and n: "length lines = length bin_file div 2"
      and l: "\<forall>j<length lines. lines ! j = take 14 (formatted (word_at bin_file (2 * j)))"
    by blast
  have each: "\<forall>j<length lines. word_at bin_file (2 * j) = w \<longrightarrow>
          call_disassembler (disassembler (instr_set ?M ! unat (disassemble_op_code w))) w []
            = Some (lines ! j)
        \<and> execute_step (?M\<lparr>pc := of_nat (2 * j)\<rparr>) io =
            (case call_handler (handler (instr_set ?M ! unat (execute_op_code w)))
                    (?M\<lparr>ir := w, pc := of_nat (2 * j) + 2\<rparr>) io of
               None \<Rightarrow> None
             | Some (rc, mp2, io2) \<Rightarrow>
                 if rc \<noteq> SUCCESS
                 then Some (ERROR, mp2,
                       io2\<lparr>stdout := stdout io2 @ tab @ ''# [ERROR: ''
                             @ dec (unat (execute_op_code w))
                             @ '' handler returned error code!] #'' @ newline\<rparr>)
                 else Some (SUCCESS, mp2, io2))"
  proof (intro allI impI)
    fix j
    assume j: "j < length lines" and wj: "word_at bin_file (2 * j) = w"
    let ?P = "?M\<lparr>pc := of_nat (2 * j)\<rparr>"
    have j2: "2 * j + 1 < length bin_file"
      using j n by arith
    have u: "unat (of_nat (2 * j) :: uint16_t) = 2 * j"
      using j2 len by (intro unat_of_nat16) simp
    have "pc ?P = of_nat (2 * j)"
      by simp
    then have up: "unat (pc ?P) = 2 * j"
      by (simp only: u)
    have p: "unat (pc ?P) + 1 < MEM_BYTE_SIZE"
      unfolding up using j2 len by (simp add: MEM_BYTE_SIZE_def)
    have "word_at (mem ?P) (2 * j) = word_at bin_file (2 * j)"
      using j2 by (simp add: machine_with_simps word_at_append)
    then have wp: "word_at (mem ?P) (unat (pc ?P)) = w"
      unfolding up using wj by simp
    have dis: "call_disassembler (disassembler (instr_set ?M ! unat (disassemble_op_code w))) w []
        = Some (lines ! j)"
      using call_disassembler_formatted [OF machine_with_ok(2), of "[]" bin_file w "[]"] l j wj
      by simp
    show "call_disassembler (disassembler (instr_set ?M ! unat (disassemble_op_code w))) w []
            = Some (lines ! j)
        \<and> execute_step ?P io =
            (case call_handler (handler (instr_set ?M ! unat (execute_op_code w)))
                    (?M\<lparr>ir := w, pc := of_nat (2 * j) + 2\<rparr>) io of
               None \<Rightarrow> None
             | Some (rc, mp2, io2) \<Rightarrow>
                 if rc \<noteq> SUCCESS
                 then Some (ERROR, mp2,
                       io2\<lparr>stdout := stdout io2 @ tab @ ''# [ERROR: ''
                             @ dec (unat (execute_op_code w))
                             @ '' handler returned error code!] #'' @ newline\<rparr>)
                 else Some (SUCCESS, mp2, io2))"
      using dis execute_step_word [OF p wp, of io] by simp
  qed
  show ?thesis
    using d n each by (intro exI [of _ lines]) simp
qed


text \<open>
  Claim C6. For every 16-bit word, the opcode that the disassembly loop computes and the
  opcode that the execution loop computes are the same value, the bits 15 to 13 of the
  word; it is below the number of table entries, so both loops index the same entry of
  the instruction table, and every entry of the table that \<^verbatim>\<open>create_instruction_set\<close>
  builds pairs the handler and the disassembler of one instruction. The loops route the
  word through that entry. An iteration of the interpreter that fetches the word \<open>w\<close>
  loads it into the instruction register and is the call of the handler of the entry
  that the opcode of \<open>w\<close> selects. The iteration of the disassembly loop whose byte
  completes the word \<open>w\<close> calls the disassembler of the entry that the opcode of \<open>w\<close>
  selects, on \<open>w\<close>, and goes on with the line it wrote. For a program whose lines fit in
  the allocation of the line buffer, loaded into the machine that \<^verbatim>\<open>start\<close> creates:
  wherever the program holds \<open>w\<close>, at the address \<open>2 * j\<close>, line \<open>j\<close> of the listing is what
  the disassembler of that entry returns for \<open>w\<close>, and the iteration of the interpreter at
  the program counter \<open>2 * j\<close> calls the handler of the same entry with \<open>w\<close> in the
  instruction register. In the example the word is \<^verbatim>\<open>LDI R1 1\<close>, 0x0202, of opcode 0.
\<close>

theorem opcode_same_on_both_paths:
  "disassemble_op_code w = execute_op_code w
   \<and> unat (execute_op_code w) = bits w 15 13
   \<and> bits w 15 13 = unat w div 2 ^ 13
   \<and> unat (execute_op_code w) < NUM_INSTRUCTIONS
   \<and> instr_set mp ! unat (disassemble_op_code w) = instr_set mp ! unat (execute_op_code w)
   \<and> (handler (instr_set (create_instruction_set create_microputer) ! unat (execute_op_code w)),
       disassembler (instr_set (create_instruction_set create_microputer) ! unat (disassemble_op_code w)))
      \<in> {(ldi_handler_ptr, ldi_disassembler_ptr), (bit_op_handler_ptr, bit_op_disassembler_ptr),
          (prt_handler_ptr, prt_disassembler_ptr), (rdd_handler_ptr, rdd_disassembler_ptr),
          (blt_handler_ptr, blt_disassembler_ptr)}
   \<and> (unat (pc mp) + 1 < MEM_BYTE_SIZE \<and> word_at (mem mp) (unat (pc mp)) = w \<longrightarrow>
        fetch mp = Some (mp\<lparr>ir := w, pc := pc mp + 2\<rparr>)
        \<and> execute_step mp io =
           (case call_handler (handler (instr_set mp ! unat (execute_op_code w)))
                   (mp\<lparr>ir := w, pc := pc mp + 2\<rparr>) io of
              None \<Rightarrow> None
            | Some (rc, mp2, io2) \<Rightarrow>
                if rc \<noteq> SUCCESS
                then Some (ERROR, mp2,
                      io2\<lparr>stdout := stdout io2 @ tab @ ''# [ERROR: '' @ dec (unat (execute_op_code w))
                            @ '' handler returned error code!] #'' @ newline\<rparr>)
                else Some (SUCCESS, mp2, io2)))
   \<and> (counter < MEM_BYTE_SIZE \<and> odd counter
        \<and> word_at ((mem mq)[counter := b]) (counter - 1) = w \<longrightarrow>
        load_loop alloc (b # rest) counter mq buf =
          (case call_disassembler (disassembler (instr_set mq ! unat (disassemble_op_code w))) w
                  (buf ! (counter div 2)) of
             None \<Rightarrow> None
           | Some line \<Rightarrow>
               if MAX_ASM_LINE_LEN * (counter div 2) + length line + 1 \<le> alloc
               then load_loop alloc rest (counter + 1) (mq\<lparr>mem := (mem mq)[counter := b]\<rparr>)
                      (buf[counter div 2 := line])
               else None))
   \<and> (length bin_file \<le> MEM_BYTE_SIZE
        \<and> MAX_ASM_LINE_LEN * (length bin_file div WORD_SIZE)
             \<le> sizeof_pointer * (MEM_BYTE_SIZE div WORD_SIZE) \<longrightarrow>
        (\<exists>lines.
            disassemble_micro_program sizeof_pointer (create_instruction_set create_microputer)
                bin_file (replicate 16 [])
              = Some (SUCCESS, machine_with [] bin_file,
                  join_lines (map (\<lambda>j. dec (2 * j) @ '': '' @ lines ! j) [0..<length lines]))
          \<and> length lines = length bin_file div 2
          \<and> (\<forall>j<length lines. word_at bin_file (2 * j) = w \<longrightarrow>
                call_disassembler
                    (disassembler (instr_set (machine_with [] bin_file) ! unat (disassemble_op_code w)))
                    w [] = Some (lines ! j)
              \<and> execute_step ((machine_with [] bin_file)\<lparr>pc := of_nat (2 * j)\<rparr>) io =
                  (case call_handler
                          (handler (instr_set (machine_with [] bin_file) ! unat (execute_op_code w)))
                          ((machine_with [] bin_file)\<lparr>ir := w, pc := of_nat (2 * j) + 2\<rparr>) io of
                     None \<Rightarrow> None
                   | Some (rc, mp2, io2) \<Rightarrow>
                       if rc \<noteq> SUCCESS
                       then Some (ERROR, mp2,
                             io2\<lparr>stdout := stdout io2 @ tab @ ''# [ERROR: ''
                                   @ dec (unat (execute_op_code w))
                                   @ '' handler returned error code!] #'' @ newline\<rparr>)
                       else Some (SUCCESS, mp2, io2)))))"
proof -
  have same: "disassemble_op_code w = execute_op_code w"
    by (simp add: disassemble_op_code_def execute_op_code_def)
  have c2: "unat (execute_op_code w) = bits w 15 13"
    by (rule execute_op_code_unat)
  have c3: "bits w 15 13 = unat w div 2 ^ 13"
    by (simp add: bits_15_13)
  have c4: "unat (execute_op_code w) < NUM_INSTRUCTIONS"
    using op_code_lt [of w] by (simp add: execute_op_code_unat bits_15_13 NUM_INSTRUCTIONS_def)
  have c5: "instr_set mp ! unat (disassemble_op_code w) = instr_set mp ! unat (execute_op_code w)"
    by (simp add: same)
  have "unat w div 8192 < 8"
    by (rule op_code_lt)
  then have "(handler (instr_set (create_instruction_set create_microputer) ! (unat w div 8192)),
       disassembler (instr_set (create_instruction_set create_microputer) ! (unat w div 8192)))
      \<in> {(ldi_handler_ptr, ldi_disassembler_ptr), (bit_op_handler_ptr, bit_op_disassembler_ptr),
          (prt_handler_ptr, prt_disassembler_ptr), (rdd_handler_ptr, rdd_disassembler_ptr),
          (blt_handler_ptr, blt_disassembler_ptr)}"
    using lt_8_cases [of "unat w div 8192"] by (auto simp: table_entries)
  then have c6: "(handler (instr_set (create_instruction_set create_microputer) ! unat (execute_op_code w)),
       disassembler (instr_set (create_instruction_set create_microputer) ! unat (disassemble_op_code w)))
      \<in> {(ldi_handler_ptr, ldi_disassembler_ptr), (bit_op_handler_ptr, bit_op_disassembler_ptr),
          (prt_handler_ptr, prt_disassembler_ptr), (rdd_handler_ptr, rdd_disassembler_ptr),
          (blt_handler_ptr, blt_disassembler_ptr)}"
    by (simp only: same execute_op_code_unat bits_15_13)
  show ?thesis
  proof (intro conjI impI)
    show "disassemble_op_code w = execute_op_code w" by (rule same)
    show "unat (execute_op_code w) = bits w 15 13" by (rule c2)
    show "bits w 15 13 = unat w div 2 ^ 13" by (rule c3)
    show "unat (execute_op_code w) < NUM_INSTRUCTIONS" by (rule c4)
    show "instr_set mp ! unat (disassemble_op_code w) = instr_set mp ! unat (execute_op_code w)"
      by (rule c5)
    show "(handler (instr_set (create_instruction_set create_microputer) ! unat (execute_op_code w)),
       disassembler (instr_set (create_instruction_set create_microputer) ! unat (disassemble_op_code w)))
      \<in> {(ldi_handler_ptr, ldi_disassembler_ptr), (bit_op_handler_ptr, bit_op_disassembler_ptr),
          (prt_handler_ptr, prt_disassembler_ptr), (rdd_handler_ptr, rdd_disassembler_ptr),
          (blt_handler_ptr, blt_disassembler_ptr)}"
      by (rule c6)
  next
    assume "unat (pc mp) + 1 < MEM_BYTE_SIZE \<and> word_at (mem mp) (unat (pc mp)) = w"
    then have a: "unat (pc mp) + 1 < MEM_BYTE_SIZE" "word_at (mem mp) (unat (pc mp)) = w"
      by simp_all
    from execute_step_word [OF a, of io]
    show "fetch mp = Some (mp\<lparr>ir := w, pc := pc mp + 2\<rparr>)"
      and "execute_step mp io =
           (case call_handler (handler (instr_set mp ! unat (execute_op_code w)))
                   (mp\<lparr>ir := w, pc := pc mp + 2\<rparr>) io of
              None \<Rightarrow> None
            | Some (rc, mp2, io2) \<Rightarrow>
                if rc \<noteq> SUCCESS
                then Some (ERROR, mp2,
                      io2\<lparr>stdout := stdout io2 @ tab @ ''# [ERROR: '' @ dec (unat (execute_op_code w))
                            @ '' handler returned error code!] #'' @ newline\<rparr>)
                else Some (SUCCESS, mp2, io2))"
      by blast+
  next
    assume "counter < MEM_BYTE_SIZE \<and> odd counter
        \<and> word_at ((mem mq)[counter := b]) (counter - 1) = w"
    then have a: "counter < MEM_BYTE_SIZE" "odd counter"
        "word_at ((mem mq)[counter := b]) (counter - 1) = w"
      by simp_all
    show "load_loop alloc (b # rest) counter mq buf =
          (case call_disassembler (disassembler (instr_set mq ! unat (disassemble_op_code w))) w
                  (buf ! (counter div 2)) of
             None \<Rightarrow> None
           | Some line \<Rightarrow>
               if MAX_ASM_LINE_LEN * (counter div 2) + length line + 1 \<le> alloc
               then load_loop alloc rest (counter + 1) (mq\<lparr>mem := (mem mq)[counter := b]\<rparr>)
                      (buf[counter div 2 := line])
               else None)"
      by (rule load_loop_word [OF a])
  next
    assume "length bin_file \<le> MEM_BYTE_SIZE
        \<and> MAX_ASM_LINE_LEN * (length bin_file div WORD_SIZE)
             \<le> sizeof_pointer * (MEM_BYTE_SIZE div WORD_SIZE)"
    then have a: "length bin_file \<le> MEM_BYTE_SIZE"
        "MAX_ASM_LINE_LEN * (length bin_file div WORD_SIZE)
             \<le> sizeof_pointer * (MEM_BYTE_SIZE div WORD_SIZE)"
      by simp_all
    show "\<exists>lines.
            disassemble_micro_program sizeof_pointer (create_instruction_set create_microputer)
                bin_file (replicate 16 [])
              = Some (SUCCESS, machine_with [] bin_file,
                  join_lines (map (\<lambda>j. dec (2 * j) @ '': '' @ lines ! j) [0..<length lines]))
          \<and> length lines = length bin_file div 2
          \<and> (\<forall>j<length lines. word_at bin_file (2 * j) = w \<longrightarrow>
                call_disassembler
                    (disassembler (instr_set (machine_with [] bin_file) ! unat (disassemble_op_code w)))
                    w [] = Some (lines ! j)
              \<and> execute_step ((machine_with [] bin_file)\<lparr>pc := of_nat (2 * j)\<rparr>) io =
                  (case call_handler
                          (handler (instr_set (machine_with [] bin_file) ! unat (execute_op_code w)))
                          ((machine_with [] bin_file)\<lparr>ir := w, pc := of_nat (2 * j) + 2\<rparr>) io of
                     None \<Rightarrow> None
                   | Some (rc, mp2, io2) \<Rightarrow>
                       if rc \<noteq> SUCCESS
                       then Some (ERROR, mp2,
                             io2\<lparr>stdout := stdout io2 @ tab @ ''# [ERROR: ''
                                   @ dec (unat (execute_op_code w))
                                   @ '' handler returned error code!] #'' @ newline\<rparr>)
                       else Some (SUCCESS, mp2, io2)))"
      by (rule program_word [OF a])
  qed
qed


theorem opcode_same_on_both_paths_witness:
  "unat (disassemble_op_code 0x0202) = 0 \<and> unat (execute_op_code 0x0202) = 0
   \<and> unat (pc (machine_with [] [0x02, 0x02])) + 1 < MEM_BYTE_SIZE
   \<and> word_at (mem (machine_with [] [0x02, 0x02])) (unat (pc (machine_with [] [0x02, 0x02]))) = 0x0202
   \<and> execute_step (machine_with [] [0x02, 0x02]) quiet
       = Some (ldi_handler ((machine_with [] [0x02, 0x02])\<lparr>ir := 0x0202, pc := 2\<rparr>) quiet)
   \<and> word_at ((mem (machine_with [] [0x02]))[1 := 0x02]) (1 - 1) = 0x0202
   \<and> load_loop 128 [0x02] 1 (machine_with [] [0x02]) (replicate 16 [])
       = Some (2, (machine_with [] [0x02])\<lparr>mem := (mem (machine_with [] [0x02]))[1 := 0x02]\<rparr>,
           (replicate 16 [])[0 := ''LDI R1 1''])
   \<and> disassemble_micro_program 8 (create_instruction_set create_microputer) [0x02, 0x02]
         (replicate 16 [])
       = Some (SUCCESS, machine_with [] [0x02, 0x02], ''0: LDI R1 1'')"
proof -
  let ?w = "0x0202 :: uint16_t"
  let ?M = "machine_with [] [0x02, 0x02]"
  let ?Q = "machine_with [] [0x02]"
  let ?file = "[0x02, 0x02] :: byte_t list"
  note T = opcode_same_on_both_paths [where w = ?w and mp = ?M and io = quiet and counter = 1
      and mq = ?Q and b = "0x02" and alloc = 128 and rest = "[]" and buf = "replicate 16 []"
      and bin_file = ?file and sizeof_pointer = 8]
  note t1 = T [THEN conjunct1]
  note t2 = T [THEN conjunct2, THEN conjunct1]
  note t3 = T [THEN conjunct2, THEN conjunct2, THEN conjunct1]
  note r6 = T [THEN conjunct2, THEN conjunct2, THEN conjunct2, THEN conjunct2, THEN conjunct2,
      THEN conjunct2]
  note t7 = r6 [THEN conjunct1]
  note t8 = r6 [THEN conjunct2, THEN conjunct1]
  note t9 = r6 [THEN conjunct2, THEN conjunct2]
  have ex: "unat (execute_op_code ?w) = 0"
    using t2 t3 by simp
  then have di: "unat (disassemble_op_code ?w) = 0"
    using t1 by simp
  have f: "take 14 (formatted ?w) = ''LDI R1 1''"
    by (simp add: formatted_def bits_def dec_large dec_small digit_char_def)
  have a1: "unat (pc ?M) + 1 < MEM_BYTE_SIZE"
    by (simp add: machine_with_simps MEM_BYTE_SIZE_def)
  have a2: "word_at (mem ?M) (unat (pc ?M)) = ?w"
    by (simp add: machine_with_simps word_at_def)
  have h: "handler (instr_set ?M ! 0) = ldi_handler_ptr"
    by (simp add: machine_with_simps table_entries)
  have p2: "pc ?M + 2 = 2"
    by (simp add: machine_with_simps)
  have "execute_step ?M quiet =
           (case call_handler (handler (instr_set ?M ! unat (execute_op_code ?w)))
                   (?M\<lparr>ir := ?w, pc := pc ?M + 2\<rparr>) quiet of
              None \<Rightarrow> None
            | Some (rc, mp2, io2) \<Rightarrow>
                if rc \<noteq> SUCCESS
                then Some (ERROR, mp2,
                      io2\<lparr>stdout := stdout io2 @ tab @ ''# [ERROR: '' @ dec (unat (execute_op_code ?w))
                            @ '' handler returned error code!] #'' @ newline\<rparr>)
                else Some (SUCCESS, mp2, io2))"
    using t7 a1 a2 by blast
  then have e: "execute_step ?M quiet = Some (ldi_handler (?M\<lparr>ir := ?w, pc := 2\<rparr>) quiet)"
    unfolding ex h p2 call_handler.simps by (simp add: ldi_handler_eq)
  have b1: "(1 :: nat) < MEM_BYTE_SIZE" "odd (1 :: nat)"
    by (simp_all add: MEM_BYTE_SIZE_def)
  have b3: "word_at ((mem ?Q)[1 := 0x02]) (1 - 1) = ?w"
    by (simp add: machine_with_simps word_at_def)
  have cd: "call_disassembler (disassembler (instr_set m ! unat (disassemble_op_code ?w))) ?w old
      = Some ''LDI R1 1''" if "table_set_up m" for m old
    using call_disassembler_formatted [OF that, of ?w old] unfolding f .
  have "load_loop 128 [0x02] 1 ?Q (replicate 16 []) =
          (case call_disassembler (disassembler (instr_set ?Q ! unat (disassemble_op_code ?w))) ?w
                  (replicate 16 [] ! (1 div 2)) of
             None \<Rightarrow> None
           | Some line \<Rightarrow>
               if MAX_ASM_LINE_LEN * (1 div 2) + length line + 1 \<le> 128
               then load_loop 128 [] (1 + 1) (?Q\<lparr>mem := (mem ?Q)[1 := 0x02]\<rparr>)
                      ((replicate 16 [])[1 div 2 := line])
               else None)"
    using t8 b1 b3 by blast
  then have l: "load_loop 128 [0x02] 1 ?Q (replicate 16 [])
       = Some (2, ?Q\<lparr>mem := (mem ?Q)[1 := 0x02]\<rparr>, (replicate 16 [])[0 := ''LDI R1 1''])"
    unfolding cd [OF machine_with_ok(2)] by (simp add: MAX_ASM_LINE_LEN_def)
  have c1: "length ?file \<le> MEM_BYTE_SIZE"
    by (simp add: MEM_BYTE_SIZE_def)
  have c2: "MAX_ASM_LINE_LEN * (length ?file div WORD_SIZE) \<le> 8 * (MEM_BYTE_SIZE div WORD_SIZE)"
    by (simp add: MAX_ASM_LINE_LEN_def MEM_BYTE_SIZE_def WORD_SIZE_def)
  from t9 c1 c2 obtain lines
    where d: "disassemble_micro_program 8 (create_instruction_set create_microputer) ?file
                (replicate 16 [])
              = Some (SUCCESS, ?M,
                  join_lines (map (\<lambda>j. dec (2 * j) @ '': '' @ lines ! j) [0..<length lines]))"
      and n: "length lines = length ?file div 2"
      and each: "\<forall>j<length lines. word_at ?file (2 * j) = ?w \<longrightarrow>
                call_disassembler (disassembler (instr_set ?M ! unat (disassemble_op_code ?w)))
                    ?w [] = Some (lines ! j)"
    by blast
  have n1: "length lines = 1"
    using n by simp
  have "word_at ?file (2 * 0) = ?w"
    by (simp add: word_at_def)
  then have "call_disassembler (disassembler (instr_set ?M ! unat (disassemble_op_code ?w)))
                    ?w [] = Some (lines ! 0)"
    using each n1 by simp
  then have l0: "lines ! 0 = ''LDI R1 1''"
    unfolding cd [OF machine_with_ok(2)] by simp
  have "join_lines (map (\<lambda>j. dec (2 * j) @ '': '' @ lines ! j) [0..<length lines])
      = ''0: LDI R1 1''"
    unfolding n1 using l0 by (simp add: dec_small digit_char_def)
  then have p: "disassemble_micro_program 8 (create_instruction_set create_microputer) ?file
         (replicate 16 [])
       = Some (SUCCESS, ?M, ''0: LDI R1 1'')"
    using d by simp
  show ?thesis
    using ex di a1 a2 e b3 l p by blast
qed

end
